theory Spec2Isabelle
  imports Main
begin

section \<open>JavaScript values used by the mask engine\<close>

text \<open>
  A JavaScript string is a list of UTF-16 code units; one code unit is modelled by a
  \<^typ>\<open>char\<close>. An array of strings may hold \<open>undefined\<close> (a hole left by
  \<open>new Array(n)\<close>, or the result of reading out of range): an array cell is a
  \<^typ>\<open>string option\<close>, with \<open>None\<close> for \<open>undefined\<close>.
  Numbers (selection offsets) are integers.
\<close>

type_synonym cell = "string option"

text \<open>\<open>s.split('')\<close>: one single-character string per code unit.\<close>

definition split_chars :: "string \<Rightarrow> string list" where
  "split_chars s = map (\<lambda>c. [c]) s"

text \<open>\<open>a.join('')\<close>: \<open>undefined\<close> cells contribute the empty string.\<close>

definition join :: "cell list \<Rightarrow> string" where
  "join xs = concat (map (\<lambda>c. case c of None \<Rightarrow> [] | Some s \<Rightarrow> s) xs)"

text \<open>\<open>s.charAt(i)\<close>: the empty string out of range.\<close>

definition charAt :: "string \<Rightarrow> int \<Rightarrow> string" where
  "charAt s i = (if 0 \<le> i \<and> i < int (length s) then [s ! nat i] else [])"

text \<open>\<open>a[i]\<close> on an array of strings: \<open>undefined\<close> out of range.\<close>

definition at :: "string list \<Rightarrow> nat \<Rightarrow> cell" where
  "at xs i = (if i < length xs then Some (xs ! i) else None)"

definition cell_at :: "cell list \<Rightarrow> int \<Rightarrow> cell" where
  "cell_at xs i = (if 0 \<le> i \<and> i < int (length xs) then xs ! nat i else None)"

text \<open>\<open>a[i] = v\<close>: a write past the end extends the array, leaving holes.\<close>

definition array_set :: "cell list \<Rightarrow> nat \<Rightarrow> cell \<Rightarrow> cell list" where
  "array_set xs i v =
     (if i < length xs then xs[i := v] else xs @ replicate (i - length xs) None @ [v])"

text \<open>\<open>Number(x)\<close> of a nullable index: \<open>Number(null)\<close> is 0.\<close>

definition Number :: "nat option \<Rightarrow> int" where
  "Number x = (case x of None \<Rightarrow> 0 | Some n \<Rightarrow> int n)"

section \<open>Format characters\<close>

text \<open>
  An entry of the registry: \<open>validate\<close> is called with a string or, from
  \<open>formatValue\<close> once the candidate characters are used up, with \<open>undefined\<close>;
  \<open>transform\<close> is optional.
\<close>

record Format =
  validate :: "cell \<Rightarrow> bool"
  transform :: "(string \<Rightarrow> string) option"

type_synonym FormatCharacters = "char \<Rightarrow> Format option"

definition digits :: string where
  "digits = ''0123456789''"

definition lower_letters :: string where
  "lower_letters = ''abcdefghijklmnopqrstuvwxyz''"

definition upper_letters :: string where
  "upper_letters = ''ABCDEFGHIJKLMNOPQRSTUVWXYZ''"

text \<open>The three regular expressions, each matching exactly one character of a class.\<close>

definition DIGIT_RE :: "string \<Rightarrow> bool" where
  "DIGIT_RE s = (case s of [c] \<Rightarrow> c \<in> set digits | _ \<Rightarrow> False)"

definition LETTER_RE :: "string \<Rightarrow> bool" where
  "LETTER_RE s = (case s of [c] \<Rightarrow> c \<in> set (upper_letters @ lower_letters) | _ \<Rightarrow> False)"

definition ALPHANNUMERIC_RE :: "string \<Rightarrow> bool" where
  "ALPHANNUMERIC_RE s =
     (case s of [c] \<Rightarrow> c \<in> set (digits @ upper_letters @ lower_letters) | _ \<Rightarrow> False)"

text \<open>\<open>RE.test(x)\<close> converts its argument to a string first: \<open>undefined\<close> is
  tested as the nine characters \<open>undefined\<close>.\<close>

definition re_test :: "(string \<Rightarrow> bool) \<Rightarrow> cell \<Rightarrow> bool" where
  "re_test re v = re (case v of None \<Rightarrow> ''undefined'' | Some s \<Rightarrow> s)"

text \<open>\<open>toUpperCase\<close> on the ASCII range, where the built-in validators confine it: the
  transforms only ever run on a character their validator accepted.\<close>

definition upper_char :: "char \<Rightarrow> char" where
  "upper_char c = (case map_of (zip lower_letters upper_letters) c of Some u \<Rightarrow> u | None \<Rightarrow> c)"

definition toUpperCase :: "string \<Rightarrow> string" where
  "toUpperCase s = map upper_char s"

definition DEFAULT_FORMAT_CHARACTERS :: FormatCharacters where
  "DEFAULT_FORMAT_CHARACTERS c =
     (if c = CHR ''*'' then Some \<lparr>validate = re_test ALPHANNUMERIC_RE, transform = None\<rparr>
      else if c = CHR ''1'' then Some \<lparr>validate = re_test DIGIT_RE, transform = None\<rparr>
      else if c = CHR ''a'' then Some \<lparr>validate = re_test LETTER_RE, transform = None\<rparr>
      else if c = CHR ''A'' then
        Some \<lparr>validate = re_test LETTER_RE, transform = Some toUpperCase\<rparr>
      else if c = CHR ''#'' then
        Some \<lparr>validate = re_test ALPHANNUMERIC_RE, transform = Some toUpperCase\<rparr>
      else None)"

text \<open>
  \<open>mergeFormatCharacters\<close>: the caller's object gives, for each of its keys, either
  \<open>null\<close> (the key is deleted from the copy of the defaults) or a definition (it
  replaces or extends them). Only one-character keys can ever match a pattern
  character, so the caller's object is a partial map on characters.
\<close>

definition mergeFormatCharacters ::
    "(char \<Rightarrow> Format option option) option \<Rightarrow> FormatCharacters" where
  "mergeFormatCharacters formatCharacters =
     (case formatCharacters of
        None \<Rightarrow> DEFAULT_FORMAT_CHARACTERS
      | Some fcs \<Rightarrow>
          (\<lambda>c. case fcs c of
                 None \<Rightarrow> DEFAULT_FORMAT_CHARACTERS c
               | Some None \<Rightarrow> None
               | Some (Some f) \<Rightarrow> Some f))"

section \<open>Pattern\<close>

datatype error =
    MissingPattern
  | InvalidPlaceholder
  | UnterminatedEscape
  | EmptyPattern
  | TypeError

definition ESCAPE_CHAR :: char where
  "ESCAPE_CHAR = CHR 0x5C"

definition DEFAULT_PLACEHOLDER_CHAR :: string where
  "DEFAULT_PLACEHOLDER_CHAR = ''_''"

record Pattern =
  placeholderCharP :: string
  formatCharactersP :: FormatCharacters
  source :: string
  patternP :: string
  lengthP :: nat
  firstEditableIndex :: "nat option"
  lastEditableIndex :: "nat option"
  editableIndices :: "nat set"
  isRevealingMask :: bool

text \<open>
  The scanning loop of \<open>_parse\<close>, over the source characters still to read. The state
  is the pattern built so far (its length is \<open>patternIndex\<close>), the first and last
  editable index and the lookup of editable indices.
\<close>

record parse_state =
  ps_pattern :: string
  ps_first :: "nat option"
  ps_last :: "nat option"
  ps_editable :: "nat set"

fun parse_loop :: "FormatCharacters \<Rightarrow> string \<Rightarrow> parse_state \<Rightarrow> error + parse_state" where
  "parse_loop fc [] st = Inr st"
| "parse_loop fc (c # cs) st =
     (let patternIndex = length (ps_pattern st) in
      if c = ESCAPE_CHAR then
        (case cs of
           [] \<Rightarrow> Inl UnterminatedEscape
         | c' # cs' \<Rightarrow> parse_loop fc cs' (st\<lparr>ps_pattern := ps_pattern st @ [c']\<rparr>))
      else if fc c \<noteq> None then
        parse_loop fc cs
          (st\<lparr>ps_pattern := ps_pattern st @ [c],
              ps_first := (if ps_first st = None then Some patternIndex else ps_first st),
              ps_last := Some patternIndex,
              ps_editable := insert patternIndex (ps_editable st)\<rparr>)
      else parse_loop fc cs (st\<lparr>ps_pattern := ps_pattern st @ [c]\<rparr>))"

text \<open>The fields \<open>_parse\<close> starts from, as the constructor sets them.\<close>

definition parse_start :: parse_state where
  "parse_start = \<lparr>ps_pattern = [], ps_first = None, ps_last = None, ps_editable = {}\<rparr>"

text \<open>The constructor of \<open>Pattern\<close>, with \<open>_parse\<close> inlined: an empty placeholder
  falls back to the default one.\<close>

definition Pattern_new ::
    "string \<Rightarrow> FormatCharacters \<Rightarrow> string \<Rightarrow> bool \<Rightarrow> error + Pattern" where
  "Pattern_new src fc placeholderChar revealing =
     (case parse_loop fc src parse_start of
        Inl e \<Rightarrow> Inl e
      | Inr st \<Rightarrow>
          if ps_first st = None then Inl EmptyPattern
          else Inr \<lparr>placeholderCharP =
                      (if placeholderChar = [] then DEFAULT_PLACEHOLDER_CHAR else placeholderChar),
                    formatCharactersP = fc,
                    source = src,
                    patternP = ps_pattern st,
                    lengthP = length (ps_pattern st),
                    firstEditableIndex = ps_first st,
                    lastEditableIndex = ps_last st,
                    editableIndices = ps_editable st,
                    isRevealingMask = revealing\<rparr>)"

definition isEditableIndex :: "Pattern \<Rightarrow> int \<Rightarrow> bool" where
  "isEditableIndex P index = (0 \<le> index \<and> nat index \<in> editableIndices P)"

text \<open>\<open>this.pattern[i]\<close>, as a cell.\<close>

definition pattern_at :: "Pattern \<Rightarrow> int \<Rightarrow> cell" where
  "pattern_at P i = cell_at (map (\<lambda>c. Some [c]) (patternP P)) i"

text \<open>
  \<open>isValidAtIndex\<close> and \<open>transform\<close> look the slot's character up in the registry.
  Every caller tests \<open>isEditableIndex\<close> first, and an editable slot of a parsed
  pattern holds a registered character (lemma \<open>parse_editable_registered\<close> below), so
  the lookup never misses; the missing case, a \<open>TypeError\<close> in the source, is given
  the value \<open>False\<close> (and the untransformed character).
\<close>

definition format_at :: "Pattern \<Rightarrow> int \<Rightarrow> Format option" where
  "format_at P index =
     (if 0 \<le> index \<and> index < int (length (patternP P))
      then formatCharactersP P (patternP P ! nat index) else None)"

definition isValidAtIndex :: "Pattern \<Rightarrow> cell \<Rightarrow> int \<Rightarrow> bool" where
  "isValidAtIndex P char index =
     (case format_at P index of None \<Rightarrow> False | Some f \<Rightarrow> validate f char)"

definition transform_at :: "Pattern \<Rightarrow> string \<Rightarrow> int \<Rightarrow> string" where
  "transform_at P char index =
     (case format_at P index of
        None \<Rightarrow> char
      | Some f \<Rightarrow> (case transform f of None \<Rightarrow> char | Some t \<Rightarrow> t char))"

text \<open>
  The loop of \<open>formatValue\<close>: \<open>i\<close> is the slot, \<open>valueIndex\<close> the cursor into the
  candidate characters, \<open>valueBuffer\<close> the array being filled (created with
  \<open>new Array(this.length)\<close>, all holes). The \<open>break\<close> returns the buffer as it is.
\<close>

function formatValue_loop ::
    "Pattern \<Rightarrow> string list \<Rightarrow> nat \<Rightarrow> nat \<Rightarrow> cell list \<Rightarrow> cell list" where
  "formatValue_loop P val i valueIndex valueBuffer =
     (if i < lengthP P then
        if isEditableIndex P (int i) then
          if isRevealingMask P \<and> length val \<le> valueIndex
             \<and> \<not> isValidAtIndex P (at val valueIndex) (int i)
          then valueBuffer
          else formatValue_loop P val (i + 1) (valueIndex + 1)
                 (array_set valueBuffer i
                    (if length val > valueIndex \<and> isValidAtIndex P (at val valueIndex) (int i)
                     then Some (transform_at P (val ! valueIndex) (int i))
                     else Some (placeholderCharP P)))
        else formatValue_loop P val (i + 1)
               (if length val > valueIndex \<and> at val valueIndex = pattern_at P (int i)
                then valueIndex + 1 else valueIndex)
               (array_set valueBuffer i (pattern_at P (int i)))
      else valueBuffer)"
  by pat_completeness auto
termination
  by (relation "measure (\<lambda>(P, val, i, valueIndex, valueBuffer). lengthP P - i)") auto

declare formatValue_loop.simps [simp del]

definition formatValue :: "Pattern \<Rightarrow> string list \<Rightarrow> cell list" where
  "formatValue P val = formatValue_loop P val 0 0 (replicate (lengthP P) None)"

section \<open>The edit engine\<close>

record Selection =
  sel_start :: int
  sel_end :: int

text \<open>
  Selection objects are mutable and shared: \<open>undo\<close> and \<open>redo\<close> make
  \<open>this.selection\<close> the very object a history item holds, and \<open>input\<close>,
  \<open>backspace\<close> and \<open>paste\<close> assign to its fields in place. They live in a store,
  and the engine and its history items hold references into it. History items
  themselves are never assigned to after their creation, so they are values.
  \<open>_lastSelection\<close> always holds a private copy that nothing else reaches and that
  is never written to: it is kept by value.
\<close>

type_synonym ref = nat

record HistoryItem =
  h_value :: string
  h_selection :: ref
  h_lastOp :: "string option"
  startUndo :: bool

record InputMask =
  placeholderChar :: string
  formatCharacters :: FormatCharacters
  selection :: ref
  valueBuf :: "cell list"
  pattern :: Pattern
  emptyValue :: string
  historyIndex :: "nat option"
  history :: "HistoryItem list"
  lastOp :: "string option"
  lastSelection :: "Selection option"
  heap :: "ref \<Rightarrow> Selection"
  nextRef :: ref

text \<open>Modelled from the spec: \<open>copy\<close> of \<open>util\<close> is not among the sources; it is
  taken to build a new object with the same fields. Here it allocates the copy at the
  next free reference.\<close>

definition copy :: "Selection \<Rightarrow> InputMask \<Rightarrow> ref \<times> InputMask" where
  "copy s m = (nextRef m, m\<lparr>heap := (heap m)(nextRef m := s), nextRef := nextRef m + 1\<rparr>)"

text \<open>The current selection, read through the store.\<close>

definition cur :: "InputMask \<Rightarrow> Selection" where
  "cur m = heap m (selection m)"

subsection \<open>Getters and setters\<close>

definition getRawValue :: "InputMask \<Rightarrow> string" where
  "getRawValue m =
     join (map (\<lambda>i. valueBuf m ! i)
             (filter (\<lambda>i. i \<in> editableIndices (pattern m)) [0..<length (valueBuf m)]))"

text \<open>\<open>getValue\<close> returns the string and, on a revealing mask, replaces the buffer.\<close>

definition getValue :: "InputMask \<Rightarrow> string \<times> InputMask" where
  "getValue m =
     (let m' = (if isRevealingMask (pattern m)
                then m\<lparr>valueBuf := formatValue (pattern m) (split_chars (getRawValue m))\<rparr>
                else m)
      in (join (valueBuf m'), m'))"

definition setValue :: "string \<Rightarrow> InputMask \<Rightarrow> InputMask" where
  "setValue v m = m\<lparr>valueBuf := formatValue (pattern m) (split_chars v)\<rparr>"

function setSelection_loop :: "InputMask \<Rightarrow> int \<Rightarrow> int option" where
  "setSelection_loop m index =
     (if index \<ge> Number (firstEditableIndex (pattern m)) then
        if (isEditableIndex (pattern m) (index - 1)
            \<and> cell_at (valueBuf m) (index - 1) \<noteq> Some (placeholderChar m))
           \<or> (case firstEditableIndex (pattern m) of None \<Rightarrow> False | Some f \<Rightarrow> index = int f)
        then Some index
        else setSelection_loop m (index - 1)
      else None)"
  by pat_completeness auto
termination
  by (relation "measure (\<lambda>(m, index). nat (index + 1 - Number (firstEditableIndex (pattern m))))")
     auto

declare setSelection_loop.simps [simp del]

definition setSelection :: "Selection \<Rightarrow> InputMask \<Rightarrow> bool \<times> InputMask" where
  "setSelection sel m =
     (case copy sel m of (r, m0) \<Rightarrow>
      let m1 = m0\<lparr>selection := r\<rparr>;
          fei = Number (firstEditableIndex (pattern m1)) in
      if sel_start sel = sel_end sel then
        if sel_start sel < fei then
          (True, m1\<lparr>heap := (heap m1)(r := \<lparr>sel_start = fei, sel_end = fei\<rparr>)\<rparr>)
        else
          (case setSelection_loop m1 (sel_start sel) of
             Some index \<Rightarrow>
               (True, m1\<lparr>heap := (heap m1)(r := \<lparr>sel_start = index, sel_end = index\<rparr>)\<rparr>)
           | None \<Rightarrow> (True, m1))
      else (False, m1))"

subsection \<open>Editing\<close>

text \<open>The loop of \<open>input\<close> that blanks the rest of an overwritten selection.\<close>

function input_clear_loop :: "Pattern \<Rightarrow> string \<Rightarrow> int \<Rightarrow> int \<Rightarrow> cell list \<Rightarrow> cell list" where
  "input_clear_loop P ph e inputIndex v =
     (if e > inputIndex then
        input_clear_loop P ph (e - 1) inputIndex
          (if isEditableIndex P e then array_set v (nat e) (Some ph) else v)
      else v)"
  by pat_completeness auto
termination
  by (relation "measure (\<lambda>(P, ph, e, inputIndex, v). nat (e - inputIndex))") auto

declare input_clear_loop.simps [simp del]

text \<open>The loop of \<open>input\<close> that steps the collapsed cursor over static characters.\<close>

function input_skip_loop :: "Pattern \<Rightarrow> int \<Rightarrow> int" where
  "input_skip_loop P s =
     (if int (lengthP P) > s \<and> \<not> isEditableIndex P s then input_skip_loop P (s + 1) else s)"
  by pat_completeness auto
termination
  by (relation "measure (\<lambda>(P, s). nat (int (lengthP P) - s))") auto

declare input_skip_loop.simps [simp del]

text \<open>The history bookkeeping shared, up to the operation's tag, by \<open>input\<close> and
  \<open>backspace\<close>: the splice after an undo, then the push of the state before the
  operation unless the operation continues a run.\<close>

definition splice_history :: "InputMask \<Rightarrow> HistoryItem list" where
  "splice_history m =
     (case historyIndex m of None \<Rightarrow> history m | Some i \<Rightarrow> take i (history m))"

definition starts_run :: "string \<Rightarrow> Selection \<Rightarrow> InputMask \<Rightarrow> bool" where
  "starts_run op selectionBefore m =
     (lastOp m \<noteq> Some op
      \<or> sel_start selectionBefore \<noteq> sel_end selectionBefore
      \<or> (case lastSelection m of
            None \<Rightarrow> False
          | Some ls \<Rightarrow> sel_start selectionBefore \<noteq> sel_start ls))"

definition push_history :: "string \<Rightarrow> Selection \<Rightarrow> string \<Rightarrow> InputMask \<Rightarrow> InputMask" where
  "push_history op selectionBefore valueBefore m =
     (if starts_run op selectionBefore m then
        (case copy selectionBefore m of (r, m') \<Rightarrow>
           m'\<lparr>history := history m' @
                 [\<lparr>h_value = valueBefore, h_selection = r, h_lastOp = lastOp m,
                   startUndo = False\<rparr>]\<rparr>)
      else m)"

definition input :: "string \<Rightarrow> InputMask \<Rightarrow> bool \<times> InputMask" where
  "input char m =
     (let P = pattern m; selectionBefore = cur m in
      if sel_start selectionBefore = sel_end selectionBefore
         \<and> sel_start selectionBefore = int (lengthP P)
      then (False, m)
      else
        (case getValue m of (valueBefore, m1) \<Rightarrow>
         let inputIndex =
               (if sel_start selectionBefore < Number (firstEditableIndex P)
                then Number (firstEditableIndex P) else sel_start selectionBefore)
         in
         if isEditableIndex P inputIndex \<and> \<not> isValidAtIndex P (Some char) inputIndex
         then (False, m1)
         else
           let v1 = (if isEditableIndex P inputIndex
                     then array_set (valueBuf m1) (nat inputIndex)
                            (Some (transform_at P char inputIndex))
                     else valueBuf m1);
               v2 = input_clear_loop P (placeholderChar m) (sel_end selectionBefore - 1)
                      inputIndex v1;
               s = input_skip_loop P (inputIndex + 1);
               sel' = \<lparr>sel_start = s, sel_end = s\<rparr>;
               m2 = m1\<lparr>valueBuf := v2, heap := (heap m1)(selection m1 := sel')\<rparr>;
               m3 = m2\<lparr>history := splice_history m2,
                        historyIndex := None\<rparr>;
               m4 = push_history ''input'' selectionBefore valueBefore m3
           in (True, m4\<lparr>lastOp := Some ''input'', lastSelection := Some sel'\<rparr>)))"

text \<open>The loop of \<open>backspace\<close> over a selected range.\<close>

function backspace_clear_loop ::
    "Pattern \<Rightarrow> string \<Rightarrow> int \<Rightarrow> int \<Rightarrow> cell list \<Rightarrow> cell list" where
  "backspace_clear_loop P ph e st v =
     (if e \<ge> st then
        backspace_clear_loop P ph (e - 1) st
          (if isEditableIndex P e then array_set v (nat e) (Some ph) else v)
      else v)"
  by pat_completeness auto
termination
  by (relation "measure (\<lambda>(P, ph, e, st, v). nat (e + 1 - st))") auto

declare backspace_clear_loop.simps [simp del]

text \<open>\<open>backspace\<close> splices the history after an undo as \<open>input\<close> does, but leaves
  \<open>_historyIndex\<close> as it is.\<close>

definition backspace :: "InputMask \<Rightarrow> bool \<times> InputMask" where
  "backspace m =
     (let P = pattern m; selectionBefore = cur m in
      if sel_start selectionBefore = 0 \<and> sel_end selectionBefore = 0 then (False, m)
      else
        (case getValue m of (valueBefore, m1) \<Rightarrow>
         let st = sel_start selectionBefore;
             v' = (if st = sel_end selectionBefore then
                     (if isEditableIndex P (st - 1) then
                        (if isRevealingMask P then take (nat (st - 1)) (valueBuf m1)
                         else array_set (valueBuf m1) (nat (st - 1)) (Some (placeholderChar m)))
                      else valueBuf m1)
                   else backspace_clear_loop P (placeholderChar m)
                          (sel_end selectionBefore - 1) st (valueBuf m1));
             sel' = (if st = sel_end selectionBefore
                     then \<lparr>sel_start = st - 1, sel_end = sel_end selectionBefore - 1\<rparr>
                     else \<lparr>sel_start = st, sel_end = st\<rparr>);
             m2 = m1\<lparr>valueBuf := v', heap := (heap m1)(selection m1 := sel')\<rparr>;
             m3 = m2\<lparr>history := splice_history m2\<rparr>;
             m4 = push_history ''backspace'' selectionBefore valueBefore m3
         in (True, m4\<lparr>lastOp := Some ''backspace'', lastSelection := Some sel'\<rparr>)))"

text \<open>
  \<open>paste\<close>: \<open>init\<close> is the engine as it was on entry, from which the snapshot
  \<open>initialState\<close> is read. The snapshot copies the arrays and the selection, not the
  selection objects the history items refer to: the roll-back puts the old fields
  back over the store as it is by then.
\<close>

definition rollback :: "InputMask \<Rightarrow> InputMask \<Rightarrow> InputMask" where
  "rollback init m =
     (case copy (cur init) m of (r, m') \<Rightarrow>
        m'\<lparr>valueBuf := valueBuf init,
           selection := r,
           lastOp := lastOp init,
           history := history init,
           historyIndex := historyIndex init,
           lastSelection := lastSelection init\<rparr>)"

fun paste_loop :: "InputMask \<Rightarrow> string \<Rightarrow> InputMask \<Rightarrow> bool \<times> InputMask" where
  "paste_loop init [] m = (True, m)"
| "paste_loop init (c # cs) m =
     (if sel_start (cur m) \<le> Number (lastEditableIndex (pattern m)) then
        (case input [c] m of (valid, m1) \<Rightarrow>
           if \<not> valid then
             (if sel_start (cur m1) > 0
                 \<and> \<not> isEditableIndex (pattern m1) (sel_start (cur m1) - 1)
                 \<and> Some [c] = pattern_at (pattern m1) (sel_start (cur m1) - 1)
              then paste_loop init cs m1
              else (False, rollback init m1))
           else paste_loop init cs m1)
      else (True, m))"

definition paste :: "string \<Rightarrow> InputMask \<Rightarrow> bool \<times> InputMask" where
  "paste inp m =
     (let fei = Number (firstEditableIndex (pattern m)) in
      if sel_start (cur m) < fei then
        (let l = fei - sel_start (cur m) in
         if \<not> list_all (\<lambda>i. Some (charAt inp (int i)) = pattern_at (pattern m) (int i))
                [0..<nat l]
         then (False, m)
         else paste_loop m (drop (nat l) inp)
                (m\<lparr>heap := (heap m)(selection m := (cur m)\<lparr>sel_start := fei\<rparr>)\<rparr>))
      else paste_loop m inp m)"

subsection \<open>History\<close>

definition restore :: "HistoryItem \<Rightarrow> InputMask \<Rightarrow> InputMask" where
  "restore historyItem m =
     m\<lparr>valueBuf := map Some (split_chars (h_value historyItem)),
       selection := h_selection historyItem,
       lastOp := h_lastOp historyItem\<rparr>"

definition undo :: "InputMask \<Rightarrow> error + bool \<times> InputMask" where
  "undo m =
     (if history m = [] \<or> historyIndex m = Some 0 then Inr (False, m)
      else
        (case historyIndex m of
           None \<Rightarrow>
             (let idx = length (history m) - 1;
                  historyItem = history m ! idx in
              case getValue (m\<lparr>historyIndex := Some idx\<rparr>) of (val, m1) \<Rightarrow>
                let m2 =
                  (if h_value historyItem \<noteq> val
                      \<or> sel_start (heap m1 (h_selection historyItem)) \<noteq> sel_start (cur m1)
                      \<or> sel_end (heap m1 (h_selection historyItem)) \<noteq> sel_end (cur m1)
                   then
                     (case copy (cur m1) m1 of (r, m') \<Rightarrow>
                        m'\<lparr>history := history m' @
                              [\<lparr>h_value = val, h_selection = r, h_lastOp = lastOp m1,
                                startUndo = True\<rparr>]\<rparr>)
                   else m1)
                in Inr (True, restore historyItem m2))
         | Some i \<Rightarrow>
             (if i - 1 < length (history m)
              then Inr (True, restore (history m ! (i - 1)) (m\<lparr>historyIndex := Some (i - 1)\<rparr>))
              else Inl TypeError)))"

definition redo :: "InputMask \<Rightarrow> error + bool \<times> InputMask" where
  "redo m =
     (if history m = [] then Inr (False, m)
      else
        (case historyIndex m of
           None \<Rightarrow> Inr (False, m)
         | Some i \<Rightarrow>
             (let idx = i + 1 in
              if idx = length (history m) - 1 then
                (let historyItem = history m ! idx;
                     m1 = m\<lparr>historyIndex := None,
                            history := (if startUndo historyItem then butlast (history m)
                                        else history m)\<rparr>
                 in Inr (True, restore historyItem m1))
              else if idx < length (history m)
              then Inr (True, restore (history m ! idx) (m\<lparr>historyIndex := Some idx\<rparr>))
              else Inl TypeError)))"

subsection \<open>Construction\<close>

record PatternOptions =
  opt_value :: "string option"
  opt_isRevealingMask :: "bool option"
  opt_selection :: "Selection option"

definition resetHistory :: "InputMask \<Rightarrow> InputMask" where
  "resetHistory m =
     m\<lparr>history := [], historyIndex := None, lastOp := None, lastSelection := Some (cur m)\<rparr>"

text \<open>\<open>setPattern\<close>: the selection given in the options is the caller's object, a new
  reference of the store; without one a new object is made.\<close>

definition setPattern :: "string \<Rightarrow> PatternOptions \<Rightarrow> InputMask \<Rightarrow> error + InputMask" where
  "setPattern pat options m =
     (case Pattern_new pat (formatCharacters m) (placeholderChar m)
             (case opt_isRevealingMask options of None \<Rightarrow> False | Some b \<Rightarrow> b) of
        Inl e \<Rightarrow> Inl e
      | Inr P \<Rightarrow>
          (let m1 = setValue (case opt_value options of None \<Rightarrow> [] | Some v \<Rightarrow> v)
                      (m\<lparr>pattern := P\<rparr>);
               m2 = m1\<lparr>emptyValue := join (formatValue P [])\<rparr>
           in case copy (case opt_selection options of
                           None \<Rightarrow> \<lparr>sel_start = 0, sel_end = 0\<rparr>
                         | Some s \<Rightarrow> s) m2 of
                (r, m3) \<Rightarrow> Inr (resetHistory (m3\<lparr>selection := r\<rparr>))))"

record InputMaskProps =
  props_formatCharacters :: "(char \<Rightarrow> Format option option) option"
  props_pattern :: "string option"
  props_isRevealingMask :: "bool option"
  props_placeholderChar :: "string option"
  props_selection :: "Selection option"
  props_value :: "string option"

text \<open>The fields of a new object before the constructor's body runs. \<open>pattern\<close> is
  undefined until \<open>setPattern\<close> assigns it, and nothing reads it before: the record
  holds an empty pattern there.\<close>

definition no_pattern :: Pattern where
  "no_pattern =
     \<lparr>placeholderCharP = [], formatCharactersP = (\<lambda>c. None), source = [], patternP = [],
      lengthP = 0, firstEditableIndex = None, lastEditableIndex = None,
      editableIndices = {}, isRevealingMask = False\<rparr>"

definition InputMask_new :: "InputMaskProps \<Rightarrow> error + InputMask" where
  "InputMask_new props =
     (case props_pattern props of
        None \<Rightarrow> Inl MissingPattern
      | Some pat \<Rightarrow>
          (let ph = (case props_placeholderChar props of
                       None \<Rightarrow> DEFAULT_PLACEHOLDER_CHAR | Some p \<Rightarrow> p) in
           if length ph > 1 then Inl InvalidPlaceholder
           else
             setPattern pat
               \<lparr>opt_value = Some (case props_value props of None \<Rightarrow> [] | Some v \<Rightarrow> v),
                opt_isRevealingMask =
                  Some (case props_isRevealingMask props of None \<Rightarrow> False | Some b \<Rightarrow> b),
                opt_selection =
                  Some (case props_selection props of
                          None \<Rightarrow> \<lparr>sel_start = 0, sel_end = 0\<rparr> | Some s \<Rightarrow> s)\<rparr>
               \<lparr>placeholderChar = ph,
                formatCharacters = mergeFormatCharacters (props_formatCharacters props),
                selection = 0,
                valueBuf = [],
                pattern = no_pattern,
                emptyValue = [],
                historyIndex = None,
                history = [],
                lastOp = None,
                lastSelection = None,
                heap = (\<lambda>r. \<lparr>sel_start = 0, sel_end = 0\<rparr>),
                nextRef = 1\<rparr>))"

section \<open>Sequences of calls\<close>

datatype call =
    Input string
  | Backspace
  | Paste string
  | Undo
  | Redo
  | SetSelection Selection
  | SetValue string
  | GetValue

fun step :: "call \<Rightarrow> InputMask \<Rightarrow> error + InputMask" where
  "step (Input c) m = Inr (snd (input c m))"
| "step Backspace m = Inr (snd (backspace m))"
| "step (Paste s) m = Inr (snd (paste s m))"
| "step Undo m = (case undo m of Inl e \<Rightarrow> Inl e | Inr r \<Rightarrow> Inr (snd r))"
| "step Redo m = (case redo m of Inl e \<Rightarrow> Inl e | Inr r \<Rightarrow> Inr (snd r))"
| "step (SetSelection sel) m = Inr (snd (setSelection sel m))"
| "step (SetValue v) m = Inr (setValue v m)"
| "step GetValue m = Inr (snd (getValue m))"

fun run :: "call list \<Rightarrow> InputMask \<Rightarrow> error + InputMask" where
  "run [] m = Inr m"
| "run (c # cs) m = (case step c m of Inl e \<Rightarrow> Inl e | Inr m' \<Rightarrow> run cs m')"

text \<open>What a caller can read of the history: each item with its selection looked up
  in the store.\<close>

definition history_view ::
    "InputMask \<Rightarrow> (string \<times> Selection \<times> string option \<times> bool) list" where
  "history_view m =
     map (\<lambda>h. (h_value h, heap m (h_selection h), h_lastOp h, startUndo h)) (history m)"

section \<open>Example engines\<close>

definition default_props :: "string \<Rightarrow> InputMaskProps" where
  "default_props pat =
     \<lparr>props_formatCharacters = None, props_pattern = Some pat,
      props_isRevealingMask = None, props_placeholderChar = None,
      props_selection = None, props_value = None\<rparr>"

definition phone_mask :: InputMask where
  "phone_mask = projr (InputMask_new (default_props ''(111) 111-1111''))"

definition two_digits :: InputMask where
  "two_digits = projr (InputMask_new (default_props ''11''))"

text \<open>The mask \<open>11\<close> after typing \<open>1\<close> and \<open>2\<close> and one \<open>undo\<close>.\<close>

definition two_digits_undone :: InputMask where
  "two_digits_undone = snd (projr (undo (snd (input ''2'' (snd (input ''1'' two_digits))))))"

section \<open>Notions the claims are stated with\<close>

subsection \<open>Pattern sources\<close>

text \<open>The number of escape pairs of a source, read left to right.\<close>

fun escape_pairs :: "string \<Rightarrow> nat" where
  "escape_pairs [] = 0"
| "escape_pairs [c] = 0"
| "escape_pairs (c # c' # cs) =
     (if c = ESCAPE_CHAR then Suc (escape_pairs cs) else escape_pairs (c' # cs))"

text \<open>The number of escape characters a source ends with: the last of them is not
  escaped exactly when the number is odd.\<close>

definition trailing_escapes :: "string \<Rightarrow> nat" where
  "trailing_escapes s = length (takeWhile (\<lambda>c. c = ESCAPE_CHAR) (rev s))"

text \<open>The number of unescaped registered characters of a source.\<close>

fun editable_slots :: "FormatCharacters \<Rightarrow> string \<Rightarrow> nat" where
  "editable_slots fc [] = 0"
| "editable_slots fc [c] = (if c \<noteq> ESCAPE_CHAR \<and> fc c \<noteq> None then 1 else 0)"
| "editable_slots fc (c # c' # cs) =
     (if c = ESCAPE_CHAR then editable_slots fc cs
      else (if fc c \<noteq> None then 1 else 0) + editable_slots fc (c' # cs))"

text \<open>The mask of two backslashes and a \<open>1\<close>, with the built-in format characters.\<close>

definition escaped_backslash :: "error + Pattern" where
  "escaped_backslash =
     Pattern_new [ESCAPE_CHAR, ESCAPE_CHAR, CHR ''1''] DEFAULT_FORMAT_CHARACTERS ''_'' False"

text \<open>What the scanning loop keeps true of its state.\<close>

definition ps_inv :: "FormatCharacters \<Rightarrow> parse_state \<Rightarrow> bool" where
  "ps_inv fc st \<longleftrightarrow>
     (\<forall>i\<in>ps_editable st. i < length (ps_pattern st) \<and> fc (ps_pattern st ! i) \<noteq> None)
     \<and> (case ps_first st of
           None \<Rightarrow> ps_editable st = {}
         | Some f \<Rightarrow> f \<in> ps_editable st \<and> (\<forall>i\<in>ps_editable st. f \<le> i))
     \<and> (case ps_last st of
           None \<Rightarrow> ps_editable st = {}
         | Some l \<Rightarrow> l \<in> ps_editable st \<and> (\<forall>i\<in>ps_editable st. i \<le> l))"

text \<open>What holds of every pattern the constructor returns.\<close>

definition wf_pattern :: "Pattern \<Rightarrow> bool" where
  "wf_pattern P \<longleftrightarrow>
     lengthP P = length (patternP P)
     \<and> (\<forall>i\<in>editableIndices P. i < lengthP P \<and> formatCharactersP P (patternP P ! i) \<noteq> None)
     \<and> (\<exists>f. firstEditableIndex P = Some f \<and> f \<in> editableIndices P
              \<and> (\<forall>i\<in>editableIndices P. f \<le> i))
     \<and> (\<exists>l. lastEditableIndex P = Some l \<and> l \<in> editableIndices P
              \<and> (\<forall>i\<in>editableIndices P. i \<le> l))"

subsection \<open>Engines and positions\<close>

definition letters_mask :: InputMask where
  "letters_mask = projr (InputMask_new (default_props ''aa''))"

text \<open>The revealing mask 11 holding 12 with the cursor at the end, after one backspace.\<close>

definition revealing_after_backspace :: InputMask where
  "revealing_after_backspace =
     snd (backspace (projr (InputMask_new
       ((default_props ''11'')\<lparr>props_isRevealingMask := Some True, props_value := Some ''12'',
          props_selection := Some \<lparr>sel_start = 2, sel_end = 2\<rparr>\<rparr>))))"

text \<open>The two situations in which \<open>input\<close> gives up: the collapsed cursor at the end
  of the pattern, and (below) a rejected character at the slot the input goes to.\<close>

definition at_end :: "InputMask \<Rightarrow> bool" where
  "at_end m \<longleftrightarrow> sel_start (cur m) = sel_end (cur m) \<and> sel_start (cur m) = int (lengthP (pattern m))"

definition insertion_index :: "InputMask \<Rightarrow> int" where
  "insertion_index m = max (sel_start (cur m)) (Number (firstEditableIndex (pattern m)))"



subsection \<open>The slots of a formatted value\<close>

text \<open>The cursor into the candidate characters when the loop of \<open>formatValue\<close> reaches
  slot \<open>i\<close> (had it not stopped before): every editable slot moves it on, and so does a
  literal slot that the next candidate character equals.\<close>

fun cursor_at :: "Pattern \<Rightarrow> string list \<Rightarrow> nat \<Rightarrow> nat" where
  "cursor_at P val 0 = 0"
| "cursor_at P val (Suc i) =
     (if isEditableIndex P (int i) then cursor_at P val i + 1
      else if length val > cursor_at P val i \<and> at val (cursor_at P val i) = pattern_at P (int i)
      then cursor_at P val i + 1
      else cursor_at P val i)"

text \<open>The cell the loop stores at slot \<open>i\<close>.\<close>

definition slot_cell :: "Pattern \<Rightarrow> string list \<Rightarrow> nat \<Rightarrow> cell" where
  "slot_cell P val i =
     (if isEditableIndex P (int i) then
        (if length val > cursor_at P val i
            \<and> isValidAtIndex P (at val (cursor_at P val i)) (int i)
         then Some (transform_at P (val ! cursor_at P val i) (int i))
         else Some (placeholderCharP P))
      else pattern_at P (int i))"

text \<open>The loop leaves at slot \<open>i\<close>.\<close>

definition breaks_at :: "Pattern \<Rightarrow> string list \<Rightarrow> nat \<Rightarrow> bool" where
  "breaks_at P val i \<longleftrightarrow>
     isEditableIndex P (int i) \<and> isRevealingMask P \<and> length val \<le> cursor_at P val i
     \<and> \<not> isValidAtIndex P (at val (cursor_at P val i)) (int i)"

definition stop_from :: "Pattern \<Rightarrow> string list \<Rightarrow> nat \<Rightarrow> nat" where
  "stop_from P val i =
     (case find (breaks_at P val) [i..<lengthP P] of None \<Rightarrow> lengthP P | Some k \<Rightarrow> k)"

text \<open>The candidate characters are used up when the loop reaches the editable slot
  \<open>i\<close>.\<close>

definition exhausted_at :: "Pattern \<Rightarrow> string list \<Rightarrow> nat \<Rightarrow> bool" where
  "exhausted_at P val i \<longleftrightarrow> isEditableIndex P (int i) \<and> length val \<le> cursor_at P val i"

text \<open>A registry whose one symbol \<open>x\<close> accepts everything, \<open>undefined\<close> too, and the
  revealing pattern \<open>xx\<close> over it.\<close>

definition accept_all :: FormatCharacters where
  "accept_all c =
     (if c = CHR ''x'' then Some \<lparr>validate = (\<lambda>v. True), transform = None\<rparr> else None)"

definition accepting_pattern :: "error + Pattern" where
  "accepting_pattern = Pattern_new ''xx'' accept_all ''_'' True"

text \<open>The revealing pattern \<open>111-111\<close>, and the revealing mask \<open>111-111\<close> after \<open>1\<close> and
  \<open>2\<close> were typed.\<close>

definition revealing_pattern :: "error + Pattern" where
  "revealing_pattern = Pattern_new ''111-111'' DEFAULT_FORMAT_CHARACTERS ''_'' True"

definition revealing_12 :: InputMask where
  "revealing_12 =
     snd (input ''2'' (snd (input ''1'' (projr (InputMask_new
       ((default_props ''111-111'')\<lparr>props_isRevealingMask := Some True\<rparr>))))))"



text \<open>What the constructor's options default to.\<close>

definition props_ph :: "InputMaskProps \<Rightarrow> string" where
  "props_ph props =
     (case props_placeholderChar props of None \<Rightarrow> DEFAULT_PLACEHOLDER_CHAR | Some p \<Rightarrow> p)"

definition props_revealing :: "InputMaskProps \<Rightarrow> bool" where
  "props_revealing props = (case props_isRevealingMask props of None \<Rightarrow> False | Some b \<Rightarrow> b)"

definition props_val :: "InputMaskProps \<Rightarrow> string" where
  "props_val props = (case props_value props of None \<Rightarrow> [] | Some v \<Rightarrow> v)"

definition props_sel :: "InputMaskProps \<Rightarrow> Selection" where
  "props_sel props =
     (case props_selection props of None \<Rightarrow> \<lparr>sel_start = 0, sel_end = 0\<rparr> | Some s \<Rightarrow> s)"

subsection \<open>Well-formed buffers\<close>

text \<open>The string \<open>s\<close> is what slot \<open>i\<close> stores for some input its validator accepts: the
  input after the slot's transform.\<close>

definition stored_at :: "Pattern \<Rightarrow> nat \<Rightarrow> string \<Rightarrow> bool" where
  "stored_at P i s \<longleftrightarrow>
     (\<exists>c. isValidAtIndex P (Some c) (int i) \<and> s = transform_at P c (int i))"

text \<open>A cell fits slot \<open>i\<close>: an editable slot holds the placeholder or a stored string, a
  literal slot holds the pattern's character.\<close>

definition wf_cell :: "Pattern \<Rightarrow> string \<Rightarrow> nat \<Rightarrow> cell \<Rightarrow> bool" where
  "wf_cell P ph i x \<longleftrightarrow>
     (if i \<in> editableIndices P then x = Some ph \<or> (\<exists>s. stored_at P i s \<and> x = Some s)
      else x = Some [patternP P ! i])"

definition wf_buffer :: "Pattern \<Rightarrow> string \<Rightarrow> cell list \<Rightarrow> bool" where
  "wf_buffer P ph V \<longleftrightarrow> length V = lengthP P \<and> (\<forall>i<lengthP P. wf_cell P ph i (V ! i))"

text \<open>Every slot stores exactly one character for an input it accepts, as the built-in
  format characters do.\<close>

definition stores_one_char :: "Pattern \<Rightarrow> bool" where
  "stores_one_char P \<longleftrightarrow> (\<forall>i\<in>editableIndices P. \<forall>s. stored_at P i s \<longrightarrow> length s = 1)"

text \<open>A pattern that is not revealing, with the engine's placeholder of one character and
  one character stored per slot.\<close>

definition plain_mask :: "Pattern \<Rightarrow> string \<Rightarrow> bool" where
  "plain_mask P ph \<longleftrightarrow>
     wf_pattern P \<and> \<not> isRevealingMask P \<and> placeholderCharP P = ph \<and> length ph = 1
     \<and> stores_one_char P"

text \<open>What every state of an engine over such a pattern satisfies: the buffer is well
  formed, and so is the character array of every value the history holds.\<close>

definition engine_inv :: "Pattern \<Rightarrow> string \<Rightarrow> InputMask \<Rightarrow> bool" where
  "engine_inv P ph m \<longleftrightarrow>
     pattern m = P \<and> placeholderChar m = ph \<and> wf_buffer P ph (valueBuf m)
     \<and> (\<forall>h\<in>set (history m). wf_buffer P ph (map Some (split_chars (h_value h))))"

text \<open>A sequence of calls on the phone mask.\<close>

definition phone_calls :: "call list" where
  "phone_calls =
     [Input ''5'', Input ''x'', Backspace, Paste ''(12) 3'', Undo, Redo,
      SetSelection \<lparr>sel_start = 2, sel_end = 7\<rparr>, Input ''9'', SetValue ''4155552671'',
      GetValue]"

definition phone_mask_run :: InputMask where
  "phone_mask_run = projr (run phone_calls phone_mask)"

text \<open>The props of the revealing mask \<open>11\<close> holding \<open>12\<close>, the cursor at the end.\<close>

definition revealing_props :: InputMaskProps where
  "revealing_props =
     (default_props ''11'')\<lparr>props_isRevealingMask := Some True, props_value := Some ''12'',
        props_selection := Some \<lparr>sel_start = 2, sel_end = 2\<rparr>\<rparr>"

subsection \<open>Formatting the raw value again\<close>

text \<open>What \<open>formatValue\<close> stores in the editable slot \<open>i\<close> for the candidate \<open>s\<close>.\<close>

definition reformat :: "Pattern \<Rightarrow> nat \<Rightarrow> string \<Rightarrow> string" where
  "reformat P i s =
     (if isValidAtIndex P (Some s) (int i) then transform_at P s (int i) else placeholderCharP P)"

text \<open>Whatever an editable slot can hold, the placeholder or a string it stores, is
  stored again as it is.\<close>

definition cell_stable :: "Pattern \<Rightarrow> string \<Rightarrow> bool" where
  "cell_stable P ph \<longleftrightarrow>
     (\<forall>i\<in>editableIndices P. \<forall>s. s = ph \<or> stored_at P i s \<longrightarrow> reformat P i s = s)"

text \<open>The editable slot that follows slot \<open>i\<close>, if any.\<close>

definition next_editable :: "Pattern \<Rightarrow> nat \<Rightarrow> nat option" where
  "next_editable P i = find (\<lambda>k. k \<in> editableIndices P) [Suc i..<lengthP P]"

text \<open>No literal character can be held by the editable slot that follows it: it is not
  the placeholder, and that slot does not store it.\<close>

definition literals_apart :: "Pattern \<Rightarrow> string \<Rightarrow> bool" where
  "literals_apart P ph \<longleftrightarrow>
     (\<forall>i<lengthP P. i \<notin> editableIndices P \<longrightarrow>
        (case next_editable P i of
           None \<Rightarrow> True
         | Some j \<Rightarrow> [patternP P ! i] \<noteq> ph \<and> \<not> stored_at P j [patternP P ! i]))"

text \<open>The literal characters of a pattern; none of them is alphanumeric or the
  placeholder.\<close>

definition literal_chars :: "Pattern \<Rightarrow> string" where
  "literal_chars P =
     map (\<lambda>i. patternP P ! i) (filter (\<lambda>i. i \<notin> editableIndices P) [0..<lengthP P])"

definition literals_plain :: "Pattern \<Rightarrow> string \<Rightarrow> bool" where
  "literals_plain P ph \<longleftrightarrow>
     list_all (\<lambda>c. c \<notin> set (digits @ upper_letters @ lower_letters) \<and> [c] \<noteq> ph)
       (literal_chars P)"

text \<open>The editable cells of a buffer from slot \<open>i\<close> on, as strings.\<close>

definition rest_cells :: "Pattern \<Rightarrow> cell list \<Rightarrow> nat \<Rightarrow> string list" where
  "rest_cells P V i =
     map (\<lambda>k. the (V ! k)) (filter (\<lambda>k. k \<in> editableIndices P) [i..<lengthP P])"

text \<open>The mask \<open>151\<close>, whose middle slot is the literal \<open>5\<close>, after \<open>1\<close> and \<open>5\<close> were typed.\<close>

definition mask_151 :: InputMask where
  "mask_151 = projr (InputMask_new (default_props ''151''))"

definition mask_151_typed :: InputMask where
  "mask_151_typed = projr (run [Input ''1'', Input ''5''] mask_151)"

subsection \<open>Undoing and redoing to the end\<close>

fun is_edit :: "call \<Rightarrow> bool" where
  "is_edit (Input c) = True"
| "is_edit Backspace = True"
| "is_edit c = False"

text \<open>\<open>undo()\<close> called until it returns false, and \<open>redo()\<close> called until it returns
  false. Both stop at the first error.\<close>

function undo_all :: "InputMask \<Rightarrow> error + InputMask" where
  "undo_all m =
     (case undo m of
        Inl e \<Rightarrow> Inl e
      | Inr r \<Rightarrow> if fst r then undo_all (snd r) else Inr (snd r))"
  by pat_completeness auto
termination
proof (relation "measure (\<lambda>m. case historyIndex m of None \<Rightarrow> Suc (length (history m)) | Some i \<Rightarrow> i)")
  show "wf (measure (\<lambda>m. case historyIndex m of None \<Rightarrow> Suc (length (history m)) | Some i \<Rightarrow> i))"
    by simp
next
  fix m r
  assume u: "undo m = Inr r" and c: "fst r"
  from c u have ne: "\<not> (history m = [] \<or> historyIndex m = Some 0)"
    by (auto simp: undo_def)
  show "(snd r, m) \<in> measure (\<lambda>m. case historyIndex m of None \<Rightarrow> Suc (length (history m))
                                    | Some i \<Rightarrow> i)"
  proof (cases "historyIndex m")
    case None
    with u ne have "historyIndex (snd r) = Some (length (history m) - 1)"
      by (auto simp: undo_def Let_def restore_def getValue_def copy_def split: if_splits)
    with None show ?thesis by simp
  next
    case (Some i)
    with u ne have "historyIndex (snd r) = Some (i - 1)" and "i \<noteq> 0"
      by (auto simp: undo_def restore_def split: if_splits)
    with Some show ?thesis by simp
  qed
qed

declare undo_all.simps [simp del]

function redo_all :: "InputMask \<Rightarrow> error + InputMask" where
  "redo_all m =
     (case redo m of
        Inl e \<Rightarrow> Inl e
      | Inr r \<Rightarrow> if fst r then redo_all (snd r) else Inr (snd r))"
  by pat_completeness auto
termination
proof (relation "measure (\<lambda>m. case historyIndex m of None \<Rightarrow> 0
                               | Some i \<Rightarrow> Suc (length (history m) - i))")
  show "wf (measure (\<lambda>m. case historyIndex m of None \<Rightarrow> 0
                               | Some i \<Rightarrow> Suc (length (history m) - i)))"
    by simp
next
  fix m r
  assume u: "redo m = Inr r" and c: "fst r"
  from c u obtain i where i: "historyIndex m = Some i" and ne: "history m \<noteq> []"
    by (auto simp: redo_def split: option.splits if_splits)
  show "(snd r, m) \<in> measure (\<lambda>m. case historyIndex m of None \<Rightarrow> 0
                               | Some i \<Rightarrow> Suc (length (history m) - i))"
  proof (cases "i + 1 = length (history m) - 1")
    case True
    with u i ne have "historyIndex (snd r) = None"
      by (auto simp: redo_def Let_def restore_def)
    with i show ?thesis by simp
  next
    case False
    with u i ne have "historyIndex (snd r) = Some (i + 1)" "history (snd r) = history m"
      "i + 1 < length (history m)"
      by (auto simp: redo_def Let_def restore_def split: if_splits)
    with i show ?thesis by simp
  qed
qed

declare redo_all.simps [simp del]

text \<open>The mask \<open>11\<close> built with the empty placeholder, after \<open>1\<close> was typed and deleted.\<close>

definition empty_placeholder_edited :: InputMask where
  "empty_placeholder_edited =
     projr (run [Input ''1'', Backspace]
       (projr (InputMask_new ((default_props ''11'')\<lparr>props_placeholderChar := Some []\<rparr>))))"

section \<open>Verification\<close>

subsection \<open>Arrays and strings\<close>

lemma length_array_set: "length (array_set xs i v) = max (length xs) (Suc i)"
  by (auto simp: array_set_def)

lemma array_set_in_range: "i < length xs \<Longrightarrow> array_set xs i v = xs[i := v]"
  by (simp add: array_set_def)

lemma cell_at_array_set:
  "cell_at (array_set xs i v) j = (if j = int i then v else cell_at xs j)"
  by (auto simp: cell_at_def array_set_def nth_append nth_list_update)

lemma cell_at_nat: "i < length xs \<Longrightarrow> cell_at xs (int i) = xs ! i"
  by (simp add: cell_at_def)

lemma join_split: "join (map Some (split_chars s)) = s"
  by (induction s) (simp_all add: join_def split_chars_def)

lemma join_append: "join (xs @ ys) = join xs @ join ys"
  by (simp add: join_def)

lemma join_replicate_None: "join (replicate n None) = []"
  by (induction n) (simp_all add: join_def)

subsection \<open>The loop of formatValue, slot by slot\<close>

lemma stop_from_step:
  "i < lengthP P \<Longrightarrow>
     stop_from P val i = (if breaks_at P val i then i else stop_from P val (Suc i))"
  by (simp add: stop_from_def upt_conv_Cons)

lemma stop_from_bounds:
  "i \<le> lengthP P \<Longrightarrow> i \<le> stop_from P val i \<and> stop_from P val i \<le> lengthP P"
  by (auto simp: stop_from_def find_Some_iff split: option.splits)

lemma stop_from_not_revealing:
  "\<not> isRevealingMask P \<Longrightarrow> stop_from P val i = lengthP P"
  by (auto simp: stop_from_def find_None_iff breaks_at_def split: option.splits)
     (auto simp: find_Some_iff breaks_at_def)

lemma formatValue_loop_slots:
  "i \<le> lengthP P \<Longrightarrow> length buf = lengthP P \<Longrightarrow>
     formatValue_loop P val i (cursor_at P val i) buf =
       take i buf @ map (slot_cell P val) [i..<stop_from P val i] @ drop (stop_from P val i) buf"
proof (induction "lengthP P - i" arbitrary: i buf)
  case 0
  then have i: "i = lengthP P" by simp
  then have "stop_from P val i = lengthP P" by (simp add: stop_from_def)
  with 0 i show ?case by (subst formatValue_loop.simps) simp
next
  case (Suc n)
  then have lt: "i < lengthP P" by simp
  show ?case
  proof (cases "breaks_at P val i")
    case True
    with lt have k: "stop_from P val i = i" by (simp add: stop_from_step)
    from True lt have "formatValue_loop P val i (cursor_at P val i) buf = buf"
      by (subst formatValue_loop.simps) (simp add: breaks_at_def)
    with k show ?thesis by simp
  next
    case False
    let ?k = "stop_from P val (Suc i)"
    let ?buf = "buf[i := slot_cell P val i]"
    from False lt have k: "stop_from P val i = ?k" by (simp add: stop_from_step)
    from stop_from_bounds[of "Suc i" P val] lt have kb: "Suc i \<le> ?k" "?k \<le> lengthP P"
      by simp_all
    from lt Suc(4) have as: "\<And>v. array_set buf i v = buf[i := v]"
      by (simp add: array_set_in_range)
    have step: "formatValue_loop P val i (cursor_at P val i) buf =
                  formatValue_loop P val (Suc i) (cursor_at P val (Suc i)) ?buf"
    proof (cases "isEditableIndex P (int i)")
      case True
      with False have nb: "\<not> (isRevealingMask P \<and> length val \<le> cursor_at P val i
             \<and> \<not> isValidAtIndex P (at val (cursor_at P val i)) (int i))"
        by (simp add: breaks_at_def)
      show ?thesis
        apply (subst formatValue_loop.simps)
        apply (simp only: lt True nb if_True if_False as)
        apply (simp add: slot_cell_def True)
        done
    next
      case False
      show ?thesis
        apply (subst formatValue_loop.simps)
        apply (simp only: lt False if_True if_False as)
        apply (simp add: slot_cell_def False)
        done
    qed
    have n: "n = lengthP P - Suc i" using Suc(2) by simp
    from lt have le: "Suc i \<le> lengthP P" by simp
    have len: "length ?buf = lengthP P" using Suc(4) by simp
    note ih = Suc(1)[OF n le len]
    have t: "take (Suc i) ?buf = take i buf @ [slot_cell P val i]"
      using lt Suc(4) by (simp add: take_Suc_conv_app_nth)
    have d: "drop ?k ?buf = drop ?k buf"
      using kb by simp
    have u: "[i..<?k] = i # [Suc i..<?k]"
      using kb by (simp add: upt_conv_Cons)
    show ?thesis
      unfolding step ih k t d u by simp
  qed
qed

lemma formatValue_slots:
  "formatValue P val =
     map (slot_cell P val) [0..<stop_from P val 0]
       @ replicate (lengthP P - stop_from P val 0) None"
  using formatValue_loop_slots[of 0 P "replicate (lengthP P) None" val]
  by (simp add: formatValue_def)

lemma length_formatValue: "length (formatValue P val) = lengthP P"
  using stop_from_bounds[of 0 P val] by (simp add: formatValue_slots)

lemma formatValue_not_revealing:
  "\<not> isRevealingMask P \<Longrightarrow> formatValue P val = map (slot_cell P val) [0..<lengthP P]"
  by (simp add: formatValue_slots stop_from_not_revealing)

lemma cursor_at_revealing [simp]:
  "cursor_at (P\<lparr>isRevealingMask := b\<rparr>) val i = cursor_at P val i"
  by (induction i) (simp_all add: isEditableIndex_def pattern_at_def)

lemma slot_cell_revealing [simp]:
  "slot_cell (P\<lparr>isRevealingMask := b\<rparr>) val i = slot_cell P val i"
  by (auto simp: slot_cell_def isEditableIndex_def pattern_at_def isValidAtIndex_def
        transform_at_def format_at_def)

lemma default_rejects_undefined:
  "DEFAULT_FORMAT_CHARACTERS c = Some f \<Longrightarrow> \<not> validate f None"
  by (auto simp: DEFAULT_FORMAT_CHARACTERS_def re_test_def DIGIT_RE_def LETTER_RE_def
        ALPHANNUMERIC_RE_def split: if_splits)

lemma default_isValidAtIndex_undefined:
  "formatCharactersP P = DEFAULT_FORMAT_CHARACTERS \<Longrightarrow> \<not> isValidAtIndex P None i"
  by (auto simp: isValidAtIndex_def format_at_def dest: default_rejects_undefined
        split: option.splits)

lemma breaks_at_iff:
  "breaks_at P val i \<longleftrightarrow>
     isRevealingMask P \<and> exhausted_at P val i \<and> \<not> isValidAtIndex P None (int i)"
  by (auto simp: breaks_at_def exhausted_at_def at_def)

lemma stop_from_props:
  "stop_from P val 0 \<le> lengthP P"
  "stop_from P val 0 < lengthP P \<Longrightarrow> breaks_at P val (stop_from P val 0)"
  "j < stop_from P val 0 \<Longrightarrow> \<not> breaks_at P val j"
proof -
  show "stop_from P val 0 \<le> lengthP P"
    using stop_from_bounds[of 0 P val] by simp
  show "stop_from P val 0 < lengthP P \<Longrightarrow> breaks_at P val (stop_from P val 0)"
  proof (cases "find (breaks_at P val) [0..<lengthP P]")
    case None
    assume "stop_from P val 0 < lengthP P"
    with None show ?thesis by (simp add: stop_from_def)
  next
    case (Some k)
    then have "breaks_at P val k" by (auto simp: find_Some_iff)
    with Some show ?thesis by (simp add: stop_from_def)
  qed
  show "j < stop_from P val 0 \<Longrightarrow> \<not> breaks_at P val j"
  proof (cases "find (breaks_at P val) [0..<lengthP P]")
    case None
    assume "j < stop_from P val 0"
    with None have "j < lengthP P" by (simp add: stop_from_def)
    with None show ?thesis by (auto simp: find_None_iff)
  next
    case (Some k)
    assume j: "j < stop_from P val 0"
    from Some j have jk: "j < k" by (simp add: stop_from_def)
    from Some obtain i where i: "i < length [0..<lengthP P]" "[0..<lengthP P] ! i = k"
      and before: "\<forall>l<i. \<not> breaks_at P val ([0..<lengthP P] ! l)"
      by (auto simp: find_Some_iff)
    from i have "i = k" by simp
    with before jk i show ?thesis by auto
  qed
qed

lemma formatValue_take_stop:
  "formatValue P val =
     take (stop_from P val 0) (formatValue (P\<lparr>isRevealingMask := False\<rparr>) val)
       @ replicate (lengthP P - stop_from P val 0) None"
proof -
  let ?k = "stop_from P val 0"
  have k: "?k \<le> lengthP P" by (rule stop_from_props)
  have "formatValue (P\<lparr>isRevealingMask := False\<rparr>) val = map (slot_cell P val) [0..<lengthP P]"
    by (simp add: formatValue_not_revealing)
  then have "take ?k (formatValue (P\<lparr>isRevealingMask := False\<rparr>) val)
               = map (slot_cell P val) [0..<?k]"
    using k by (simp add: take_map min_def)
  then show ?thesis
    by (simp add: formatValue_slots)
qed

subsection \<open>Pattern compilation\<close>

lemma parse_loop_append:
  "parse_loop fc xs st = Inr st' \<Longrightarrow> parse_loop fc (xs @ ys) st = parse_loop fc ys st'"
  by (induction fc xs st rule: parse_loop.induct)
     (auto simp: Let_def split: if_splits list.splits)

lemma take_Suc_snoc:
  assumes "take (Suc (length xs)) ys = xs @ [x]"
  shows "take (length xs) ys = xs"
proof -
  from assms have "take (length xs) (take (Suc (length xs)) ys) = take (length xs) (xs @ [x])"
    by simp
  then show ?thesis by (simp add: min_def)
qed

lemma parse_loop_grows:
  "parse_loop fc src st = Inr st' \<Longrightarrow>
     take (length (ps_pattern st)) (ps_pattern st') = ps_pattern st
     \<and> length (ps_pattern st') + escape_pairs src = length (ps_pattern st) + length src
     \<and> (\<forall>i < length (ps_pattern st). i \<in> ps_editable st' \<longleftrightarrow> i \<in> ps_editable st)"
proof (induction fc src st rule: parse_loop.induct)
  case (1 fc st)
  then show ?case by simp
next
  case (2 fc c cs st)
  show ?case
  proof (cases "c = ESCAPE_CHAR")
    case True
    then obtain c' cs' where cs: "cs = c' # cs'"
      using 2(4) by (cases cs) auto
    from 2(4) True cs have rec: "parse_loop fc cs' (st\<lparr>ps_pattern := ps_pattern st @ [c']\<rparr>) = Inr st'"
      by simp
    from 2(1)[OF refl True cs rec] show ?thesis
      using True cs by (auto dest: take_Suc_snoc)
  next
    case False
    show ?thesis
    proof (cases "fc c = None")
      case True
      from 2(4) False True have rec: "parse_loop fc cs (st\<lparr>ps_pattern := ps_pattern st @ [c]\<rparr>) = Inr st'"
        by simp
      from 2(3)[OF refl False _ rec] True show ?thesis
        using False by (cases cs) (auto dest: take_Suc_snoc)
    next
      case nn: False
      let ?st1 = "st\<lparr>ps_pattern := ps_pattern st @ [c],
              ps_first := (if ps_first st = None then Some (length (ps_pattern st)) else ps_first st),
              ps_last := Some (length (ps_pattern st)),
              ps_editable := insert (length (ps_pattern st)) (ps_editable st)\<rparr>"
      from 2(4) False nn have rec: "parse_loop fc cs ?st1 = Inr st'"
        by (simp add: Let_def)
      from 2(2)[OF refl False nn rec] show ?thesis
        using False by (cases cs) (auto dest: take_Suc_snoc)
    qed
  qed
qed

lemma parse_loop_inv:
  "parse_loop fc src st = Inr st' \<Longrightarrow> ps_inv fc st \<Longrightarrow> ps_inv fc st'"
proof (induction fc src st rule: parse_loop.induct)
  case (1 fc st)
  then show ?case by simp
next
  case (2 fc c cs st)
  show ?case
  proof (cases "c = ESCAPE_CHAR")
    case True
    then obtain c' cs' where cs: "cs = c' # cs'"
      using 2(4) by (cases cs) auto
    from 2(4) True cs have rec: "parse_loop fc cs' (st\<lparr>ps_pattern := ps_pattern st @ [c']\<rparr>) = Inr st'"
      by simp
    have "ps_inv fc (st\<lparr>ps_pattern := ps_pattern st @ [c']\<rparr>)"
      using 2(5) by (auto simp: ps_inv_def nth_append split: option.splits)
    from 2(1)[OF refl True cs rec this] show ?thesis .
  next
    case False
    show ?thesis
    proof (cases "fc c = None")
      case True
      from 2(4) False True have rec: "parse_loop fc cs (st\<lparr>ps_pattern := ps_pattern st @ [c]\<rparr>) = Inr st'"
        by simp
      have "ps_inv fc (st\<lparr>ps_pattern := ps_pattern st @ [c]\<rparr>)"
        using 2(5) by (auto simp: ps_inv_def nth_append split: option.splits)
      from 2(3)[OF refl False _ rec this] True show ?thesis by simp
    next
      case nn: False
      let ?st1 = "st\<lparr>ps_pattern := ps_pattern st @ [c],
              ps_first := (if ps_first st = None then Some (length (ps_pattern st)) else ps_first st),
              ps_last := Some (length (ps_pattern st)),
              ps_editable := insert (length (ps_pattern st)) (ps_editable st)\<rparr>"
      from 2(4) False nn have rec: "parse_loop fc cs ?st1 = Inr st'"
        by (simp add: Let_def)
      have "ps_inv fc ?st1"
        using 2(5) nn by (fastforce simp: ps_inv_def nth_append split: option.splits)
      from 2(2)[OF refl False nn rec this] show ?thesis .
    qed
  qed
qed

lemma ps_inv_start: "ps_inv fc parse_start"
  by (simp add: ps_inv_def parse_start_def)

lemma Pattern_new_wf:
  assumes "Pattern_new src fc ph rv = Inr P"
  shows "wf_pattern P" and "formatCharactersP P = fc" and "isRevealingMask P = rv"
    and "placeholderCharP P = (if ph = [] then DEFAULT_PLACEHOLDER_CHAR else ph)"
    and "source P = src"
proof -
  from assms obtain st where st: "parse_loop fc src parse_start = Inr st"
    and nn: "ps_first st \<noteq> None"
    and P: "P = \<lparr>placeholderCharP = (if ph = [] then DEFAULT_PLACEHOLDER_CHAR else ph),
                    formatCharactersP = fc, source = src, patternP = ps_pattern st,
                    lengthP = length (ps_pattern st), firstEditableIndex = ps_first st,
                    lastEditableIndex = ps_last st, editableIndices = ps_editable st,
                    isRevealingMask = rv\<rparr>"
    by (auto simp: Pattern_new_def parse_start_def split: sum.splits if_splits)
  have inv: "ps_inv fc st" using parse_loop_inv[OF st ps_inv_start] .
  show "wf_pattern P"
    using inv nn unfolding P wf_pattern_def ps_inv_def
    by (auto split: option.splits)
  show "formatCharactersP P = fc" "isRevealingMask P = rv"
    "placeholderCharP P = (if ph = [] then DEFAULT_PLACEHOLDER_CHAR else ph)" "source P = src"
    by (simp_all add: P)
qed

lemma trailing_escapes_Cons:
  "trailing_escapes (x # cs) =
     (if \<forall>c\<in>set cs. c = ESCAPE_CHAR then (if x = ESCAPE_CHAR then Suc (length cs) else length cs)
      else trailing_escapes cs)"
  by (auto simp: trailing_escapes_def takeWhile_append takeWhile_eq_all_conv[THEN iffD2])

lemma trailing_escapes_all: "\<forall>c\<in>set cs. c = ESCAPE_CHAR \<Longrightarrow> trailing_escapes cs = length cs"
  by (simp add: trailing_escapes_def takeWhile_eq_all_conv[THEN iffD2])

lemma parse_loop_unterminated:
  "(\<exists>e. parse_loop fc src st = Inl e) \<longleftrightarrow> odd (trailing_escapes src)"
proof (induction fc src st rule: parse_loop.induct)
  case (1 fc st)
  then show ?case by (simp add: trailing_escapes_def)
next
  case (2 fc c cs st)
  show ?case
  proof (cases "c = ESCAPE_CHAR")
    case True
    show ?thesis
    proof (cases cs)
      case Nil
      with True show ?thesis by (simp add: trailing_escapes_def)
    next
      case (Cons c' cs')
      with True 2(1)[OF refl True Cons] show ?thesis
        by (auto simp: trailing_escapes_Cons trailing_escapes_all split: if_splits)
    qed
  next
    case False
    with 2(2,3) show ?thesis
      by (cases "fc c = None")
         (auto simp: trailing_escapes_Cons trailing_escapes_all Let_def split: if_splits)
  qed
qed

lemma parse_loop_error: "parse_loop fc src st = Inl e \<Longrightarrow> e = UnterminatedEscape"
  by (induction fc src st rule: parse_loop.induct) (auto simp: Let_def split: if_splits list.splits)

lemma parse_loop_first:
  "parse_loop fc src st = Inr st' \<Longrightarrow>
     (ps_first st' = None \<longleftrightarrow> ps_first st = None \<and> editable_slots fc src = 0)"
proof (induction fc src st rule: parse_loop.induct)
  case (1 fc st)
  then show ?case by simp
next
  case (2 fc c cs st)
  show ?case
  proof (cases "c = ESCAPE_CHAR")
    case True
    then obtain c' cs' where cs: "cs = c' # cs'"
      using 2(4) by (cases cs) auto
    from 2(4) True cs have rec: "parse_loop fc cs' (st\<lparr>ps_pattern := ps_pattern st @ [c']\<rparr>) = Inr st'"
      by simp
    from 2(1)[OF refl True cs rec] show ?thesis
      using True cs by simp
  next
    case False
    show ?thesis
    proof (cases "fc c = None")
      case True
      from 2(4) False True have rec: "parse_loop fc cs (st\<lparr>ps_pattern := ps_pattern st @ [c]\<rparr>) = Inr st'"
        by simp
      from 2(3)[OF refl False _ rec] True show ?thesis
        using False by (cases cs) auto
    next
      case nn: False
      let ?st1 = "st\<lparr>ps_pattern := ps_pattern st @ [c],
              ps_first := (if ps_first st = None then Some (length (ps_pattern st)) else ps_first st),
              ps_last := Some (length (ps_pattern st)),
              ps_editable := insert (length (ps_pattern st)) (ps_editable st)\<rparr>"
      from 2(4) False nn have rec: "parse_loop fc cs ?st1 = Inr st'"
        by (simp add: Let_def)
      from 2(2)[OF refl False nn rec] show ?thesis
        using False nn by (cases cs) auto
    qed
  qed
qed

lemma Pattern_new_cases:
  "Pattern_new src fc ph rv =
     (case parse_loop fc src parse_start of
        Inl e \<Rightarrow> Inl UnterminatedEscape
      | Inr st \<Rightarrow>
          if editable_slots fc src = 0 then Inl EmptyPattern
          else Inr \<lparr>placeholderCharP = (if ph = [] then DEFAULT_PLACEHOLDER_CHAR else ph),
                    formatCharactersP = fc, source = src, patternP = ps_pattern st,
                    lengthP = length (ps_pattern st), firstEditableIndex = ps_first st,
                    lastEditableIndex = ps_last st, editableIndices = ps_editable st,
                    isRevealingMask = rv\<rparr>)"
proof (cases "parse_loop fc src parse_start")
  case (Inl e)
  then show ?thesis
    using parse_loop_error[OF Inl] by (simp add: Pattern_new_def parse_start_def)
next
  case (Inr st)
  from parse_loop_first[OF Inr] have "ps_first st = None \<longleftrightarrow> editable_slots fc src = 0"
    by (simp add: parse_start_def)
  with Inr show ?thesis
    by (simp add: Pattern_new_def)
qed

lemma escape_emits_literal:
  assumes pre: "parse_loop fc pre parse_start = Inr st"
    and P: "Pattern_new (pre @ ESCAPE_CHAR # c # rest) fc ph rv = Inr P"
  shows "length (ps_pattern st) < lengthP P"
    and "patternP P ! length (ps_pattern st) = c"
    and "length (ps_pattern st) \<notin> editableIndices P"
proof -
  let ?n = "length (ps_pattern st)"
  let ?st1 = "st\<lparr>ps_pattern := ps_pattern st @ [c]\<rparr>"
  from P obtain st' where st': "parse_loop fc (pre @ ESCAPE_CHAR # c # rest) parse_start = Inr st'"
    and PP: "patternP P = ps_pattern st'" "lengthP P = length (ps_pattern st')"
      "editableIndices P = ps_editable st'"
    by (auto simp: Pattern_new_cases split: sum.splits if_splits)
  from st' parse_loop_append[OF pre] have "parse_loop fc (ESCAPE_CHAR # c # rest) st = Inr st'"
    by simp
  then have rec: "parse_loop fc rest ?st1 = Inr st'"
    by simp
  from parse_loop_grows[OF rec]
  have tk: "take (Suc ?n) (ps_pattern st') = ps_pattern st @ [c]"
    and ed: "\<forall>i<Suc ?n. i \<in> ps_editable st' \<longleftrightarrow> i \<in> ps_editable st"
    by simp_all
  from tk have len: "?n < length (ps_pattern st')"
    by (metis length_append_singleton length_take lessI min_less_iff_conj)
  then show "?n < lengthP P" by (simp add: PP)
  from tk len have "ps_pattern st' ! ?n = (ps_pattern st @ [c]) ! ?n"
    by (metis lessI nth_take)
  then show "patternP P ! ?n = c" by (simp add: PP)
  from parse_loop_inv[OF pre ps_inv_start] have "?n \<notin> ps_editable st"
    by (auto simp: ps_inv_def)
  with ed show "?n \<notin> editableIndices P" by (simp add: PP)
qed

subsection \<open>Input\<close>

lemma getValue_snd:
  "snd (getValue m) =
     m\<lparr>valueBuf := (if isRevealingMask (pattern m)
                     then formatValue (pattern m) (split_chars (getRawValue m))
                     else valueBuf m)\<rparr>"
  by (simp add: getValue_def Let_def)

lemma getValue_fst: "fst (getValue m) = join (valueBuf (snd (getValue m)))"
  by (simp add: getValue_def Let_def)

lemma input_index_max:
  "(if sel_start (cur m) < Number (firstEditableIndex (pattern m))
    then Number (firstEditableIndex (pattern m)) else sel_start (cur m)) = insertion_index m"
  by (simp add: insertion_index_def max_def)

lemma input_False_iff:
  "\<not> fst (input char m) \<longleftrightarrow>
     at_end m
     \<or> (isEditableIndex (pattern m) (insertion_index m)
        \<and> \<not> isValidAtIndex (pattern m) (Some char) (insertion_index m))"
  unfolding input_def Let_def input_index_max at_end_def
  by (auto split: prod.splits)

lemma input_False_state:
  assumes "\<not> fst (input char m)"
  shows "snd (input char m) = (if at_end m then m else snd (getValue m))"
proof (cases "at_end m")
  case True
  then show ?thesis by (simp add: input_def at_end_def Let_def)
next
  case False
  with assms have "isEditableIndex (pattern m) (insertion_index m)
        \<and> \<not> isValidAtIndex (pattern m) (Some char) (insertion_index m)"
    by (simp add: input_False_iff)
  with False show ?thesis
    unfolding input_def Let_def input_index_max at_end_def
    by (auto simp: case_prod_beta)
qed

subsection \<open>The clearing loops, cell by cell\<close>

lemma input_clear_loop_cell:
  "cell_at (input_clear_loop P ph e i v) j =
     (if i < j \<and> j \<le> e \<and> isEditableIndex P j then Some ph else cell_at v j)"
proof (induction P ph e i v rule: input_clear_loop.induct)
  case (1 P ph e inputIndex v)
  show ?case
  proof (cases "e > inputIndex")
    case False
    then show ?thesis by (subst input_clear_loop.simps) auto
  next
    case True
    have "input_clear_loop P ph e inputIndex v =
            input_clear_loop P ph (e - 1) inputIndex
              (if isEditableIndex P e then array_set v (nat e) (Some ph) else v)"
      using True by (subst input_clear_loop.simps) simp
    with 1[OF True] True show ?thesis
      by (auto simp: cell_at_array_set isEditableIndex_def)
  qed
qed

lemma backspace_clear_loop_cell:
  "cell_at (backspace_clear_loop P ph e st v) j =
     (if st \<le> j \<and> j \<le> e \<and> isEditableIndex P j then Some ph else cell_at v j)"
proof (induction P ph e st v rule: backspace_clear_loop.induct)
  case (1 P ph e st v)
  show ?case
  proof (cases "e \<ge> st")
    case False
    then show ?thesis by (subst backspace_clear_loop.simps) auto
  next
    case True
    have "backspace_clear_loop P ph e st v =
            backspace_clear_loop P ph (e - 1) st
              (if isEditableIndex P e then array_set v (nat e) (Some ph) else v)"
      using True by (subst backspace_clear_loop.simps) simp
    with 1[OF True] True show ?thesis
      by (auto simp: cell_at_array_set isEditableIndex_def)
  qed
qed

subsection \<open>What a successful input and a successful backspace leave\<close>

lemma getValue_fields [simp]:
  "pattern (snd (getValue m)) = pattern m"
  "placeholderChar (snd (getValue m)) = placeholderChar m"
  "formatCharacters (snd (getValue m)) = formatCharacters m"
  "selection (snd (getValue m)) = selection m"
  "heap (snd (getValue m)) = heap m"
  "nextRef (snd (getValue m)) = nextRef m"
  "history (snd (getValue m)) = history m"
  "historyIndex (snd (getValue m)) = historyIndex m"
  "lastOp (snd (getValue m)) = lastOp m"
  "lastSelection (snd (getValue m)) = lastSelection m"
  "emptyValue (snd (getValue m)) = emptyValue m"
  by (simp_all add: getValue_snd)

lemma push_history_fields [simp]:
  "pattern (push_history op s v m) = pattern m"
  "placeholderChar (push_history op s v m) = placeholderChar m"
  "formatCharacters (push_history op s v m) = formatCharacters m"
  "selection (push_history op s v m) = selection m"
  "valueBuf (push_history op s v m) = valueBuf m"
  "historyIndex (push_history op s v m) = historyIndex m"
  "lastOp (push_history op s v m) = lastOp m"
  "lastSelection (push_history op s v m) = lastSelection m"
  "emptyValue (push_history op s v m) = emptyValue m"
  by (simp_all add: push_history_def copy_def)

text \<open>The buffer a successful \<open>input\<close> builds.\<close>

lemma input_fields [simp]:
  "pattern (snd (input c m)) = pattern m"
  "placeholderChar (snd (input c m)) = placeholderChar m"
  "formatCharacters (snd (input c m)) = formatCharacters m"
  "selection (snd (input c m)) = selection m"
  "emptyValue (snd (input c m)) = emptyValue m"
  unfolding input_def Let_def
  by (simp_all add: case_prod_beta)

lemma input_valueBuf:
  assumes "fst (input c m)"
  shows "valueBuf (snd (input c m)) =
           input_clear_loop (pattern m) (placeholderChar m) (sel_end (cur m) - 1)
             (insertion_index m)
             (if isEditableIndex (pattern m) (insertion_index m)
              then array_set (valueBuf (snd (getValue m))) (nat (insertion_index m))
                     (Some (transform_at (pattern m) c (insertion_index m)))
              else valueBuf (snd (getValue m)))"
proof -
  from assms have ne: "\<not> at_end m"
    and ok: "\<not> (isEditableIndex (pattern m) (insertion_index m)
               \<and> \<not> isValidAtIndex (pattern m) (Some c) (insertion_index m))"
    using input_False_iff[of c m] by blast+
  from ne ok show ?thesis
    unfolding input_def Let_def input_index_max at_end_def
    by (auto simp: case_prod_beta)
qed

lemma backspace_fields [simp]:
  "pattern (snd (backspace m)) = pattern m"
  "placeholderChar (snd (backspace m)) = placeholderChar m"
  "formatCharacters (snd (backspace m)) = formatCharacters m"
  "selection (snd (backspace m)) = selection m"
  "emptyValue (snd (backspace m)) = emptyValue m"
  unfolding backspace_def Let_def
  by (simp_all add: case_prod_beta)

lemma backspace_fst: "fst (backspace m) \<longleftrightarrow> \<not> (sel_start (cur m) = 0 \<and> sel_end (cur m) = 0)"
  unfolding backspace_def Let_def by (simp add: case_prod_beta)

lemma backspace_valueBuf:
  assumes "fst (backspace m)"
  shows "valueBuf (snd (backspace m)) =
           (if sel_start (cur m) = sel_end (cur m) then
              (if isEditableIndex (pattern m) (sel_start (cur m) - 1) then
                 (if isRevealingMask (pattern m)
                  then take (nat (sel_start (cur m) - 1)) (valueBuf (snd (getValue m)))
                  else array_set (valueBuf (snd (getValue m))) (nat (sel_start (cur m) - 1))
                         (Some (placeholderChar m)))
               else valueBuf (snd (getValue m)))
            else backspace_clear_loop (pattern m) (placeholderChar m) (sel_end (cur m) - 1)
                   (sel_start (cur m)) (valueBuf (snd (getValue m))))"
  using assms unfolding backspace_fst
  unfolding backspace_def Let_def
  by (auto simp: case_prod_beta)

subsection \<open>The state after a successful input or backspace\<close>

lemma input_True_state:
  assumes "fst (input c m)"
  shows "snd (input c m) =
    (push_history ''input'' (cur m) (fst (getValue m))
       ((snd (getValue m))
          \<lparr>valueBuf := valueBuf (snd (input c m)),
           heap := (heap m)(selection m :=
                      \<lparr>sel_start = input_skip_loop (pattern m) (insertion_index m + 1),
                       sel_end = input_skip_loop (pattern m) (insertion_index m + 1)\<rparr>),
           history := splice_history m,
           historyIndex := None\<rparr>))
      \<lparr>lastOp := Some ''input'',
       lastSelection := Some \<lparr>sel_start = input_skip_loop (pattern m) (insertion_index m + 1),
                               sel_end = input_skip_loop (pattern m) (insertion_index m + 1)\<rparr>\<rparr>"
proof -
  from assms have ne: "\<not> at_end m"
    and ok: "\<not> (isEditableIndex (pattern m) (insertion_index m)
               \<and> \<not> isValidAtIndex (pattern m) (Some c) (insertion_index m))"
    using input_False_iff[of c m] by blast+
  have sp: "\<And>v h. splice_history ((snd (getValue m))\<lparr>valueBuf := v, heap := h\<rparr>) = splice_history m"
    by (simp add: splice_history_def split: option.splits)
  let ?V = "input_clear_loop (pattern m) (placeholderChar m) (sel_end (cur m) - 1)
             (insertion_index m)
             (if isEditableIndex (pattern m) (insertion_index m)
              then array_set (valueBuf (snd (getValue m))) (nat (insertion_index m))
                     (Some (transform_at (pattern m) c (insertion_index m)))
              else valueBuf (snd (getValue m)))"
  have "input c m = (True,
    (push_history ''input'' (cur m) (fst (getValue m))
       ((snd (getValue m))
          \<lparr>valueBuf := ?V,
           heap := (heap m)(selection m :=
                      \<lparr>sel_start = input_skip_loop (pattern m) (insertion_index m + 1),
                       sel_end = input_skip_loop (pattern m) (insertion_index m + 1)\<rparr>),
           history := splice_history m,
           historyIndex := None\<rparr>))
      \<lparr>lastOp := Some ''input'',
       lastSelection := Some \<lparr>sel_start = input_skip_loop (pattern m) (insertion_index m + 1),
                               sel_end = input_skip_loop (pattern m) (insertion_index m + 1)\<rparr>\<rparr>)"
    using ne ok
    unfolding input_def Let_def input_index_max at_end_def
    by (simp add: case_prod_beta sp)
  then show ?thesis
    unfolding input_valueBuf[OF assms] by simp
qed

lemma backspace_True_state:
  assumes "fst (backspace m)"
  shows "snd (backspace m) =
    (push_history ''backspace'' (cur m) (fst (getValue m))
       ((snd (getValue m))
          \<lparr>valueBuf := valueBuf (snd (backspace m)),
           heap := (heap m)(selection m :=
                      (if sel_start (cur m) = sel_end (cur m)
                       then \<lparr>sel_start = sel_start (cur m) - 1, sel_end = sel_end (cur m) - 1\<rparr>
                       else \<lparr>sel_start = sel_start (cur m), sel_end = sel_start (cur m)\<rparr>)),
           history := splice_history m\<rparr>))
      \<lparr>lastOp := Some ''backspace'',
       lastSelection := Some (if sel_start (cur m) = sel_end (cur m)
                       then \<lparr>sel_start = sel_start (cur m) - 1, sel_end = sel_end (cur m) - 1\<rparr>
                       else \<lparr>sel_start = sel_start (cur m), sel_end = sel_start (cur m)\<rparr>)\<rparr>"
proof -
  from assms have nz: "\<not> (sel_start (cur m) = 0 \<and> sel_end (cur m) = 0)"
    by (simp add: backspace_fst)
  have sp: "\<And>v h. splice_history ((snd (getValue m))\<lparr>valueBuf := v, heap := h\<rparr>) = splice_history m"
    by (simp add: splice_history_def split: option.splits)
  let ?V = "(if sel_start (cur m) = sel_end (cur m) then
              (if isEditableIndex (pattern m) (sel_start (cur m) - 1) then
                 (if isRevealingMask (pattern m)
                  then take (nat (sel_start (cur m) - 1)) (valueBuf (snd (getValue m)))
                  else array_set (valueBuf (snd (getValue m))) (nat (sel_start (cur m) - 1))
                         (Some (placeholderChar m)))
               else valueBuf (snd (getValue m)))
            else backspace_clear_loop (pattern m) (placeholderChar m) (sel_end (cur m) - 1)
                   (sel_start (cur m)) (valueBuf (snd (getValue m))))"
  have "backspace m = (True,
    (push_history ''backspace'' (cur m) (fst (getValue m))
       ((snd (getValue m))
          \<lparr>valueBuf := ?V,
           heap := (heap m)(selection m :=
                      (if sel_start (cur m) = sel_end (cur m)
                       then \<lparr>sel_start = sel_start (cur m) - 1, sel_end = sel_end (cur m) - 1\<rparr>
                       else \<lparr>sel_start = sel_start (cur m), sel_end = sel_start (cur m)\<rparr>)),
           history := splice_history m\<rparr>))
      \<lparr>lastOp := Some ''backspace'',
       lastSelection := Some (if sel_start (cur m) = sel_end (cur m)
                       then \<lparr>sel_start = sel_start (cur m) - 1, sel_end = sel_end (cur m) - 1\<rparr>
                       else \<lparr>sel_start = sel_start (cur m), sel_end = sel_start (cur m)\<rparr>)\<rparr>)"
    using nz
    unfolding backspace_def Let_def
    by (simp add: case_prod_beta sp)
  then show ?thesis
    unfolding backspace_valueBuf[OF assms] by simp
qed

lemma backspace_False_state:
  assumes "\<not> fst (backspace m)"
  shows "snd (backspace m) = m"
proof -
  from assms have "sel_start (cur m) = 0 \<and> sel_end (cur m) = 0" by (simp add: backspace_fst)
  then show ?thesis unfolding backspace_def Let_def by simp
qed

lemma push_history_set:
  "h \<in> set (history (push_history op s v m)) \<Longrightarrow> h \<in> set (history m) \<or> h_value h = v"
  by (auto simp: push_history_def copy_def split: if_splits)

lemma splice_history_set: "h \<in> set (splice_history m) \<Longrightarrow> h \<in> set (history m)"
  by (auto simp: splice_history_def dest: in_set_takeD split: option.splits)

lemma input_history_set:
  assumes "h \<in> set (history (snd (input c m)))"
  shows "h \<in> set (history m) \<or> h_value h = fst (getValue m)"
proof (cases "fst (input c m)")
  case False
  with assms show ?thesis by (simp add: input_False_state split: if_splits)
next
  case True
  from assms show ?thesis
    by (subst (asm) input_True_state[OF True])
       (auto dest!: push_history_set splice_history_set)
qed

lemma backspace_history_set:
  assumes "h \<in> set (history (snd (backspace m)))"
  shows "h \<in> set (history m) \<or> h_value h = fst (getValue m)"
proof (cases "fst (backspace m)")
  case False
  with assms show ?thesis by (simp add: backspace_False_state)
next
  case True
  from assms show ?thesis
    by (subst (asm) backspace_True_state[OF True])
       (auto dest!: push_history_set splice_history_set)
qed

subsection \<open>Selection\<close>






subsection \<open>Construction\<close>

lemma InputMask_new_facts:
  assumes "InputMask_new props = Inr m"
  shows "\<exists>pat. props_pattern props = Some pat
           \<and> Pattern_new pat (mergeFormatCharacters (props_formatCharacters props))
                (props_ph props) (props_revealing props) = Inr (pattern m)"
    and "length (props_ph props) \<le> 1"
    and "placeholderChar m = props_ph props"
    and "formatCharacters m = mergeFormatCharacters (props_formatCharacters props)"
    and "valueBuf m = formatValue (pattern m) (split_chars (props_val props))"
    and "history m = []" and "historyIndex m = None" and "lastOp m = None"
    and "cur m = props_sel props" and "lastSelection m = Some (props_sel props)"
  using assms
  unfolding InputMask_new_def setPattern_def Let_def props_ph_def props_revealing_def
    props_val_def props_sel_def
  by (auto simp: setValue_def resetHistory_def copy_def cur_def
        split: option.splits if_splits sum.splits)

lemma InputMask_new_pattern:
  assumes "InputMask_new props = Inr m"
  shows "wf_pattern (pattern m)"
    and "formatCharactersP (pattern m) = mergeFormatCharacters (props_formatCharacters props)"
    and "isRevealingMask (pattern m) = props_revealing props"
    and "placeholderCharP (pattern m) =
           (if props_ph props = [] then DEFAULT_PLACEHOLDER_CHAR else props_ph props)"
proof -
  from InputMask_new_facts(1)[OF assms] obtain pat where
    "Pattern_new pat (mergeFormatCharacters (props_formatCharacters props))
       (props_ph props) (props_revealing props) = Inr (pattern m)" by blast
  from Pattern_new_wf[OF this]
  show "wf_pattern (pattern m)"
    and "formatCharactersP (pattern m) = mergeFormatCharacters (props_formatCharacters props)"
    and "isRevealingMask (pattern m) = props_revealing props"
    and "placeholderCharP (pattern m) =
           (if props_ph props = [] then DEFAULT_PLACEHOLDER_CHAR else props_ph props)"
    by simp_all
qed





subsection \<open>Well-formed buffers are kept\<close>

lemma wf_buffer_cell_at:
  "wf_buffer P ph V \<longleftrightarrow>
     length V = lengthP P \<and> (\<forall>i<lengthP P. wf_cell P ph i (cell_at V (int i)))"
  by (auto simp: wf_buffer_def cell_at_def)

lemma wf_cell_single:
  assumes "plain_mask P ph" and "i < lengthP P" and "wf_cell P ph i x"
  shows "\<exists>c. x = Some [c]"
proof (cases "i \<in> editableIndices P")
  case False
  with assms(3) show ?thesis by (simp add: wf_cell_def)
next
  case True
  from assms(1) have ph: "length ph = 1" and one: "stores_one_char P"
    by (simp_all add: plain_mask_def)
  from assms(3) True have "x = Some ph \<or> (\<exists>s. stored_at P i s \<and> x = Some s)"
    by (simp add: wf_cell_def)
  then obtain s where "x = Some s" "length s = 1"
    using ph one True by (auto simp: stores_one_char_def)
  then show ?thesis by (cases s) auto
qed

lemma join_single_cells:
  "\<forall>x\<in>set V. \<exists>c. x = Some [c] \<Longrightarrow> map Some (split_chars (join V)) = V"
  by (induction V) (auto simp: join_def split_chars_def)

lemma wf_buffer_join_split:
  assumes "plain_mask P ph" and "wf_buffer P ph V"
  shows "map Some (split_chars (join V)) = V"
proof (rule join_single_cells, rule ballI)
  fix x assume "x \<in> set V"
  then obtain i where "i < length V" "x = V ! i" by (auto simp: in_set_conv_nth)
  with assms show "\<exists>c. x = Some [c]"
    by (auto simp: wf_buffer_def intro: wf_cell_single)
qed

lemma pattern_at_nat:
  "wf_pattern P \<Longrightarrow> i < lengthP P \<Longrightarrow> pattern_at P (int i) = Some [patternP P ! i]"
  by (simp add: pattern_at_def cell_at_def wf_pattern_def)

lemma isEditableIndex_nat [simp]: "isEditableIndex P (int i) \<longleftrightarrow> i \<in> editableIndices P"
  by (simp add: isEditableIndex_def)

lemma isEditableIndex_bounds:
  "wf_pattern P \<Longrightarrow> isEditableIndex P j \<Longrightarrow> 0 \<le> j \<and> nat j < lengthP P"
  by (auto simp: isEditableIndex_def wf_pattern_def)

lemma slot_cell_wf:
  assumes "wf_pattern P" and "i < lengthP P"
  shows "wf_cell P (placeholderCharP P) i (slot_cell P val i)"
  using assms
  by (auto simp: wf_cell_def slot_cell_def stored_at_def at_def pattern_at_nat)

lemma formatValue_wf:
  assumes "plain_mask P ph"
  shows "wf_buffer P ph (formatValue P val)"
proof -
  from assms have wf: "wf_pattern P" and nr: "\<not> isRevealingMask P"
    and ph: "placeholderCharP P = ph"
    by (simp_all add: plain_mask_def)
  show ?thesis
    using slot_cell_wf[OF wf, of _ val] ph
    by (auto simp: wf_buffer_def formatValue_not_revealing[OF nr])
qed

lemma getValue_plain:
  "\<not> isRevealingMask (pattern m) \<Longrightarrow> getValue m = (join (valueBuf m), m)"
  by (simp add: getValue_def)

text \<open>The clearing loops write editable cells of the pattern only.\<close>

lemma length_input_clear_loop:
  "wf_pattern P \<Longrightarrow> length v = lengthP P \<Longrightarrow> length (input_clear_loop P ph e i v) = lengthP P"
proof (induction P ph e i v rule: input_clear_loop.induct)
  case (1 P ph e inputIndex v)
  show ?case
  proof (cases "e > inputIndex")
    case False
    with 1(3) show ?thesis by (subst input_clear_loop.simps) simp
  next
    case True
    have len: "length (if isEditableIndex P e then array_set v (nat e) (Some ph) else v) = lengthP P"
      using 1(2,3) isEditableIndex_bounds[of P e]
      by (auto simp: length_array_set)
    have "input_clear_loop P ph e inputIndex v =
            input_clear_loop P ph (e - 1) inputIndex
              (if isEditableIndex P e then array_set v (nat e) (Some ph) else v)"
      using True by (subst input_clear_loop.simps) simp
    with 1(1)[OF True 1(2) len] show ?thesis by simp
  qed
qed

lemma length_backspace_clear_loop:
  "wf_pattern P \<Longrightarrow> length v = lengthP P \<Longrightarrow>
     length (backspace_clear_loop P ph e st v) = lengthP P"
proof (induction P ph e st v rule: backspace_clear_loop.induct)
  case (1 P ph e st v)
  show ?case
  proof (cases "e \<ge> st")
    case False
    with 1(3) show ?thesis by (subst backspace_clear_loop.simps) simp
  next
    case True
    have len: "length (if isEditableIndex P e then array_set v (nat e) (Some ph) else v) = lengthP P"
      using 1(2,3) isEditableIndex_bounds[of P e]
      by (auto simp: length_array_set)
    have "backspace_clear_loop P ph e st v =
            backspace_clear_loop P ph (e - 1) st
              (if isEditableIndex P e then array_set v (nat e) (Some ph) else v)"
      using True by (subst backspace_clear_loop.simps) simp
    with 1(1)[OF True 1(2) len] show ?thesis by simp
  qed
qed

lemma wf_cell_placeholder:
  "i \<in> editableIndices P \<Longrightarrow> wf_cell P ph i (Some ph)"
  by (simp add: wf_cell_def)

lemma input_valueBuf_wf:
  assumes pm: "plain_mask (pattern m) (placeholderChar m)"
    and wf: "wf_buffer (pattern m) (placeholderChar m) (valueBuf m)"
  shows "wf_buffer (pattern m) (placeholderChar m) (valueBuf (snd (input c m)))"
proof (cases "fst (input c m)")
  case False
  from pm have "\<not> isRevealingMask (pattern m)" by (simp add: plain_mask_def)
  with False wf show ?thesis
    by (simp add: input_False_state getValue_plain)
next
  case True
  let ?P = "pattern m" and ?ph = "placeholderChar m" and ?ii = "insertion_index m"
  from pm have wfp: "wf_pattern ?P" and nr: "\<not> isRevealingMask ?P"
    by (simp_all add: plain_mask_def)
  from True have ok: "isEditableIndex ?P ?ii \<longrightarrow> isValidAtIndex ?P (Some c) ?ii"
    using input_False_iff[of c m] by blast
  let ?v1 = "if isEditableIndex ?P ?ii
              then array_set (valueBuf m) (nat ?ii) (Some (transform_at ?P c ?ii))
              else valueBuf m"
  have vb: "valueBuf (snd (input c m)) =
              input_clear_loop ?P ?ph (sel_end (cur m) - 1) ?ii ?v1"
    using input_valueBuf[OF True] nr by (simp add: getValue_plain)
  from wf have len0: "length (valueBuf m) = lengthP ?P" by (simp add: wf_buffer_def)
  have len1: "length ?v1 = lengthP ?P"
    using len0 isEditableIndex_bounds[OF wfp, of ?ii] by (auto simp: length_array_set)
  have cells: "\<forall>i<lengthP ?P. wf_cell ?P ?ph i (cell_at (valueBuf (snd (input c m))) (int i))"
  proof (intro allI impI)
    fix i assume i: "i < lengthP ?P"
    from wf i have old: "wf_cell ?P ?ph i (cell_at (valueBuf m) (int i))"
      by (simp add: wf_buffer_cell_at)
    show "wf_cell ?P ?ph i (cell_at (valueBuf (snd (input c m))) (int i))"
    proof (cases "?ii < int i \<and> int i \<le> sel_end (cur m) - 1 \<and> i \<in> editableIndices ?P")
      case True
      then show ?thesis
        by (simp add: vb input_clear_loop_cell wf_cell_placeholder)
    next
      case False
      then have eq: "cell_at (valueBuf (snd (input c m))) (int i) = cell_at ?v1 (int i)"
        by (auto simp: vb input_clear_loop_cell)
      show ?thesis
      proof (cases "isEditableIndex ?P ?ii \<and> int i = ?ii")
        case True
        then have ii: "?ii = int i" by simp
        with True have ed: "i \<in> editableIndices ?P" by simp
        with ok True have "isValidAtIndex ?P (Some c) (int i)" by simp
        then have st: "stored_at ?P i (transform_at ?P c (int i))"
          by (auto simp: stored_at_def)
        have "cell_at ?v1 (int i) = Some (transform_at ?P c (int i))"
          using ed by (simp add: ii cell_at_array_set)
        with st ed show ?thesis
          unfolding eq wf_cell_def by auto
      next
        case False
        have "isEditableIndex ?P ?ii \<Longrightarrow> int (nat ?ii) = ?ii"
          by (simp add: isEditableIndex_def)
        with False have "cell_at ?v1 (int i) = cell_at (valueBuf m) (int i)"
          by (auto simp: cell_at_array_set)
        with old show ?thesis
          by (simp add: eq)
      qed
    qed
  qed
  show ?thesis
    unfolding wf_buffer_cell_at
    using cells length_input_clear_loop[OF wfp len1] by (simp add: vb)
qed

lemma backspace_valueBuf_wf:
  assumes pm: "plain_mask (pattern m) (placeholderChar m)"
    and wf: "wf_buffer (pattern m) (placeholderChar m) (valueBuf m)"
  shows "wf_buffer (pattern m) (placeholderChar m) (valueBuf (snd (backspace m)))"
proof (cases "fst (backspace m)")
  case False
  then have "sel_start (cur m) = 0 \<and> sel_end (cur m) = 0" by (simp add: backspace_fst)
  then have "backspace m = (False, m)"
    unfolding backspace_def Let_def by simp
  with wf show ?thesis by simp
next
  case True
  let ?P = "pattern m" and ?ph = "placeholderChar m"
  from pm have wfp: "wf_pattern ?P" and nr: "\<not> isRevealingMask ?P"
    by (simp_all add: plain_mask_def)
  from wf have len0: "length (valueBuf m) = lengthP ?P" by (simp add: wf_buffer_def)
  note vb = backspace_valueBuf[OF True]
  show ?thesis
  proof (cases "sel_start (cur m) = sel_end (cur m)")
    case col: True
    show ?thesis
    proof (cases "isEditableIndex ?P (sel_start (cur m) - 1)")
      case False
      with col wf nr show ?thesis by (simp add: vb getValue_plain)
    next
      case ed: True
      let ?k = "nat (sel_start (cur m) - 1)"
      from isEditableIndex_bounds[OF wfp ed] have k: "?k < lengthP ?P" by simp
      from ed have ked: "?k \<in> editableIndices ?P" by (simp add: isEditableIndex_def)
      have eq: "valueBuf (snd (backspace m)) = (valueBuf m)[?k := Some ?ph]"
        using col ed nr k len0 by (simp add: vb getValue_plain array_set_in_range)
      have "\<forall>i<lengthP ?P. wf_cell ?P ?ph i ((valueBuf m)[?k := Some ?ph] ! i)"
      proof (intro allI impI)
        fix i assume i: "i < lengthP ?P"
        show "wf_cell ?P ?ph i ((valueBuf m)[?k := Some ?ph] ! i)"
        proof (cases "i = ?k")
          case True
          with ked k len0 show ?thesis by (simp add: wf_cell_placeholder)
        next
          case False
          with wf i show ?thesis by (simp add: wf_buffer_def)
        qed
      qed
      with len0 show ?thesis
        unfolding eq wf_buffer_def by simp
    qed
  next
    case rng: False
    have eq: "valueBuf (snd (backspace m)) =
                backspace_clear_loop ?P ?ph (sel_end (cur m) - 1) (sel_start (cur m)) (valueBuf m)"
      using rng nr by (simp add: vb getValue_plain)
    have "\<forall>i<lengthP ?P. wf_cell ?P ?ph i (cell_at (valueBuf (snd (backspace m))) (int i))"
      using wf by (auto simp: eq backspace_clear_loop_cell wf_buffer_cell_at wf_cell_placeholder)
    then show ?thesis
      unfolding wf_buffer_cell_at
      using length_backspace_clear_loop[OF wfp len0] by (simp add: eq)
  qed
qed

subsection \<open>The engine's invariant is kept by every call\<close>

lemma engine_inv_history_value:
  assumes "plain_mask P ph" and "engine_inv P ph m"
  shows "wf_buffer P ph (map Some (split_chars (fst (getValue m))))"
proof -
  from assms have nr: "\<not> isRevealingMask (pattern m)" and wf: "wf_buffer P ph (valueBuf m)"
    by (simp_all add: plain_mask_def engine_inv_def)
  from wf_buffer_join_split[OF assms(1) wf] wf nr show ?thesis
    by (simp add: getValue_plain)
qed

lemma input_inv:
  assumes pm: "plain_mask P ph" and inv: "engine_inv P ph m"
  shows "engine_inv P ph (snd (input c m))"
proof -
  from inv have P: "pattern m = P" and ph: "placeholderChar m = ph"
    and wf: "wf_buffer P ph (valueBuf m)"
    and hs: "\<forall>h\<in>set (history m). wf_buffer P ph (map Some (split_chars (h_value h)))"
    by (simp_all add: engine_inv_def)
  have "wf_buffer P ph (valueBuf (snd (input c m)))"
    using input_valueBuf_wf[of m c] pm wf P ph by simp
  moreover have "\<forall>h\<in>set (history (snd (input c m))).
                   wf_buffer P ph (map Some (split_chars (h_value h)))"
  proof (rule ballI)
    fix h assume "h \<in> set (history (snd (input c m)))"
    from input_history_set[OF this] hs engine_inv_history_value[OF pm inv]
    show "wf_buffer P ph (map Some (split_chars (h_value h)))" by auto
  qed
  ultimately show ?thesis using P ph by (simp add: engine_inv_def)
qed

lemma backspace_inv:
  assumes pm: "plain_mask P ph" and inv: "engine_inv P ph m"
  shows "engine_inv P ph (snd (backspace m))"
proof -
  from inv have P: "pattern m = P" and ph: "placeholderChar m = ph"
    and wf: "wf_buffer P ph (valueBuf m)"
    and hs: "\<forall>h\<in>set (history m). wf_buffer P ph (map Some (split_chars (h_value h)))"
    by (simp_all add: engine_inv_def)
  have "wf_buffer P ph (valueBuf (snd (backspace m)))"
    using backspace_valueBuf_wf[of m] pm wf P ph by simp
  moreover have "\<forall>h\<in>set (history (snd (backspace m))).
                   wf_buffer P ph (map Some (split_chars (h_value h)))"
  proof (rule ballI)
    fix h assume "h \<in> set (history (snd (backspace m)))"
    from backspace_history_set[OF this] hs engine_inv_history_value[OF pm inv]
    show "wf_buffer P ph (map Some (split_chars (h_value h)))" by auto
  qed
  ultimately show ?thesis using P ph by (simp add: engine_inv_def)
qed

lemma engine_inv_heap [simp]: "engine_inv P ph (m\<lparr>heap := h\<rparr>) = engine_inv P ph m"
  by (simp add: engine_inv_def)

lemma rollback_inv:
  assumes "engine_inv P ph init" and "engine_inv P ph m"
  shows "engine_inv P ph (rollback init m)"
  using assms by (simp add: engine_inv_def rollback_def copy_def)

lemma paste_loop_inv:
  assumes pm: "plain_mask P ph" and init: "engine_inv P ph init"
  shows "engine_inv P ph m \<Longrightarrow> engine_inv P ph (snd (paste_loop init cs m))"
proof (induction cs arbitrary: m)
  case Nil
  then show ?case by simp
next
  case (Cons c cs)
  have i: "engine_inv P ph (snd (input [c] m))"
    using input_inv[OF pm Cons.prems] .
  show ?case
    using Cons.IH[OF i] rollback_inv[OF init i] Cons.prems
    by (simp add: case_prod_beta)
qed

lemma paste_inv:
  assumes pm: "plain_mask P ph" and inv: "engine_inv P ph m"
  shows "engine_inv P ph (snd (paste s m))"
  using paste_loop_inv[OF pm inv, of m] paste_loop_inv[OF pm inv, of "m\<lparr>heap := _\<rparr>"] inv
  by (simp add: paste_def Let_def)

lemma restore_inv:
  assumes "engine_inv P ph m"
    and "wf_buffer P ph (map Some (split_chars (h_value item)))"
  shows "engine_inv P ph (restore item m)"
  using assms by (simp add: engine_inv_def restore_def)

lemma undo_inv:
  assumes pm: "plain_mask P ph" and inv: "engine_inv P ph m" and u: "undo m = Inr (b, m')"
  shows "engine_inv P ph m'"
proof (cases "history m = [] \<or> historyIndex m = Some 0")
  case True
  with u inv show ?thesis by (auto simp: undo_def)
next
  case False
  from inv have hs: "\<forall>h\<in>set (history m). wf_buffer P ph (map Some (split_chars (h_value h)))"
    by (simp add: engine_inv_def)
  from pm inv have nr: "\<not> isRevealingMask (pattern m)"
    by (simp add: plain_mask_def engine_inv_def)
  show ?thesis
  proof (cases "historyIndex m")
    case (Some i)
    with False u have lt: "i - 1 < length (history m)"
      and m': "m' = restore (history m ! (i - 1)) (m\<lparr>historyIndex := Some (i - 1)\<rparr>)"
      by (auto simp: undo_def split: if_splits)
    from inv have "engine_inv P ph (m\<lparr>historyIndex := Some (i - 1)\<rparr>)"
      by (simp add: engine_inv_def)
    moreover from hs lt have "wf_buffer P ph (map Some (split_chars (h_value (history m ! (i - 1)))))"
      by simp
    ultimately show ?thesis unfolding m' by (rule restore_inv)
  next
    case None
    let ?item = "history m ! (length (history m) - 1)"
    let ?m1 = "m\<lparr>historyIndex := Some (length (history m) - 1)\<rparr>"
    let ?new = "\<lparr>h_value = join (valueBuf m), h_selection = nextRef m, h_lastOp = lastOp m,
                 startUndo = True\<rparr>"
    from False have ne: "history m \<noteq> []" by simp
    then have item: "wf_buffer P ph (map Some (split_chars (h_value ?item)))"
      using hs by simp
    from inv have i1: "engine_inv P ph ?m1" by (simp add: engine_inv_def)
    from engine_inv_history_value[OF pm inv] nr
    have nw: "wf_buffer P ph (map Some (split_chars (join (valueBuf m))))"
      by (simp add: getValue_plain)
    have i2: "engine_inv P ph (?m1\<lparr>heap := (heap m)(nextRef m := cur m), nextRef := nextRef m + 1,
                 history := history m @ [?new]\<rparr>)"
      using inv nw by (simp add: engine_inv_def)
    from u None False nr
    have "m' = restore ?item ?m1
          \<or> m' = restore ?item (?m1\<lparr>heap := (heap m)(nextRef m := cur m), nextRef := nextRef m + 1,
                 history := history m @ [?new]\<rparr>)"
      by (auto simp: undo_def Let_def getValue_plain copy_def cur_def split: if_splits)
    with restore_inv[OF i1 item] restore_inv[OF i2 item] show ?thesis by auto
  qed
qed

lemma redo_inv:
  assumes inv: "engine_inv P ph m" and r: "redo m = Inr (b, m')"
  shows "engine_inv P ph m'"
proof (cases "history m = [] \<or> historyIndex m = None")
  case True
  with r inv show ?thesis by (auto simp: redo_def split: option.splits)
next
  case False
  then obtain i where i: "historyIndex m = Some i" and ne: "history m \<noteq> []" by auto
  from inv have hs: "\<forall>h\<in>set (history m). wf_buffer P ph (map Some (split_chars (h_value h)))"
    by (simp add: engine_inv_def)
  show ?thesis
  proof (cases "i + 1 = length (history m) - 1")
    case True
    let ?item = "history m ! (i + 1)"
    from True ne have lt: "i + 1 < length (history m)" by (cases "history m") auto
    with hs have item: "wf_buffer P ph (map Some (split_chars (h_value ?item)))" by simp
    have "engine_inv P ph (m\<lparr>historyIndex := None,
            history := (if startUndo ?item then butlast (history m) else history m)\<rparr>)"
      using inv by (auto simp: engine_inv_def dest: in_set_butlastD)
    from restore_inv[OF this item] r i ne True show ?thesis
      by (simp add: redo_def Let_def)
  next
    case False
    with r i ne have lt: "i + 1 < length (history m)"
      and m': "m' = restore (history m ! (i + 1)) (m\<lparr>historyIndex := Some (i + 1)\<rparr>)"
      by (auto simp: redo_def Let_def split: if_splits)
    from inv have "engine_inv P ph (m\<lparr>historyIndex := Some (i + 1)\<rparr>)"
      by (simp add: engine_inv_def)
    moreover from hs lt have "wf_buffer P ph (map Some (split_chars (h_value (history m ! (i + 1)))))"
      by simp
    ultimately show ?thesis unfolding m' by (rule restore_inv)
  qed
qed

lemma setSelection_fields [simp]:
  "pattern (snd (setSelection sel m)) = pattern m"
  "placeholderChar (snd (setSelection sel m)) = placeholderChar m"
  "valueBuf (snd (setSelection sel m)) = valueBuf m"
  "history (snd (setSelection sel m)) = history m"
  "historyIndex (snd (setSelection sel m)) = historyIndex m"
  by (simp_all add: setSelection_def Let_def copy_def split: option.splits)

lemma setSelection_inv: "engine_inv P ph m \<Longrightarrow> engine_inv P ph (snd (setSelection sel m))"
  by (simp add: engine_inv_def)

lemma setValue_inv:
  "plain_mask P ph \<Longrightarrow> engine_inv P ph m \<Longrightarrow> engine_inv P ph (setValue v m)"
  by (auto simp: engine_inv_def setValue_def formatValue_wf)

lemma getValue_inv:
  "plain_mask P ph \<Longrightarrow> engine_inv P ph m \<Longrightarrow> engine_inv P ph (snd (getValue m))"
  by (simp add: engine_inv_def plain_mask_def getValue_plain)

lemma step_inv:
  assumes pm: "plain_mask P ph" and inv: "engine_inv P ph m" and s: "step c m = Inr m'"
  shows "engine_inv P ph m'"
proof (cases c)
  case (Input x)
  with s input_inv[OF pm inv] show ?thesis by auto
next
  case Backspace
  with s backspace_inv[OF pm inv] show ?thesis by auto
next
  case (Paste x)
  with s paste_inv[OF pm inv] show ?thesis by auto
next
  case Undo
  with s have "(case undo m of Inl e \<Rightarrow> Inl e | Inr r \<Rightarrow> Inr (snd r)) = Inr m'" by simp
  then obtain r where r: "undo m = Inr r" "snd r = m'" by (auto split: sum.splits)
  then have "undo m = Inr (fst r, m')" by (cases r) simp
  from undo_inv[OF pm inv this] show ?thesis .
next
  case Redo
  with s have "(case redo m of Inl e \<Rightarrow> Inl e | Inr r \<Rightarrow> Inr (snd r)) = Inr m'" by simp
  then obtain r where r: "redo m = Inr r" "snd r = m'" by (auto split: sum.splits)
  then have "redo m = Inr (fst r, m')" by (cases r) simp
  from redo_inv[OF inv this] show ?thesis .
next
  case (SetSelection x)
  with s setSelection_inv[OF inv] show ?thesis by auto
next
  case (SetValue x)
  with s setValue_inv[OF pm inv] show ?thesis by auto
next
  case GetValue
  with s getValue_inv[OF pm inv] show ?thesis by auto
qed

lemma run_inv:
  assumes pm: "plain_mask P ph"
  shows "engine_inv P ph m \<Longrightarrow> run cs m = Inr m' \<Longrightarrow> engine_inv P ph m'"
proof (induction cs arbitrary: m)
  case Nil
  then show ?case by simp
next
  case (Cons c cs)
  from Cons.prems(2) obtain m1 where s: "step c m = Inr m1" and r: "run cs m1 = Inr m'"
    by (auto split: sum.splits)
  from Cons.IH[OF step_inv[OF pm Cons.prems(1) s] r] show ?case .
qed

lemma InputMask_new_inv:
  assumes new: "InputMask_new props = Inr m"
    and nr: "\<not> props_revealing props" and ph: "length (props_ph props) = 1"
    and one: "stores_one_char (pattern m)"
  shows "plain_mask (pattern m) (placeholderChar m)"
    and "engine_inv (pattern m) (placeholderChar m) m"
proof -
  from ph have ne: "props_ph props \<noteq> []" by auto
  show pm: "plain_mask (pattern m) (placeholderChar m)"
    using InputMask_new_pattern[OF new] InputMask_new_facts(3)[OF new] nr ph one ne
    by (simp add: plain_mask_def)
  show "engine_inv (pattern m) (placeholderChar m) m"
    using formatValue_wf[OF pm] InputMask_new_facts(5,6)[OF new]
    by (simp add: engine_inv_def)
qed

lemma toUpperCase_length [simp]: "length (toUpperCase s) = length s"
  by (simp add: toUpperCase_def)

lemma default_validate_single:
  assumes "DEFAULT_FORMAT_CHARACTERS x = Some f" and "validate f (Some c)"
  shows "length c = 1"
proof -
  from assms have "DIGIT_RE c \<or> LETTER_RE c \<or> ALPHANNUMERIC_RE c"
    by (auto simp: DEFAULT_FORMAT_CHARACTERS_def re_test_def split: if_splits)
  then show ?thesis
    by (auto simp: DIGIT_RE_def LETTER_RE_def ALPHANNUMERIC_RE_def split: list.splits)
qed

lemma default_transform_length:
  assumes "DEFAULT_FORMAT_CHARACTERS x = Some f" and "transform f = Some t"
  shows "length (t c) = length c"
  using assms by (auto simp: DEFAULT_FORMAT_CHARACTERS_def split: if_splits)

lemma default_stores_one_char:
  assumes "formatCharactersP P = DEFAULT_FORMAT_CHARACTERS"
  shows "stores_one_char P"
  unfolding stores_one_char_def stored_at_def
proof (intro ballI allI impI)
  fix i s
  assume "\<exists>c. isValidAtIndex P (Some c) (int i) \<and> s = transform_at P c (int i)"
  then obtain c where v: "isValidAtIndex P (Some c) (int i)" and s: "s = transform_at P c (int i)"
    by blast
  from v obtain f where f: "format_at P (int i) = Some f" and vf: "validate f (Some c)"
    by (auto simp: isValidAtIndex_def split: option.splits)
  from f assms obtain x where x: "DEFAULT_FORMAT_CHARACTERS x = Some f"
    by (auto simp: format_at_def split: if_splits)
  from default_validate_single[OF x vf] have c: "length c = 1" .
  show "length s = 1"
  proof (cases "transform f")
    case None
    with s f c show ?thesis by (simp add: transform_at_def)
  next
    case (Some t)
    with s f c default_transform_length[OF x Some, of c] show ?thesis
      by (simp add: transform_at_def)
  qed
qed

lemma wf_buffer_claims:
  assumes "wf_buffer P ph V"
  shows "length V = lengthP P"
    and "\<forall>i<lengthP P. i \<notin> editableIndices P \<longrightarrow> V ! i = Some [patternP P ! i]"
    and "wf_pattern P \<Longrightarrow> \<forall>i\<in>editableIndices P. V ! i = Some ph
            \<or> (\<exists>c. isValidAtIndex P (Some c) (int i) \<and> V ! i = Some (transform_at P c (int i)))"
proof -
  show "length V = lengthP P" using assms by (simp add: wf_buffer_def)
  show "\<forall>i<lengthP P. i \<notin> editableIndices P \<longrightarrow> V ! i = Some [patternP P ! i]"
    using assms by (auto simp: wf_buffer_def wf_cell_def)
  assume wf: "wf_pattern P"
  show "\<forall>i\<in>editableIndices P. V ! i = Some ph
            \<or> (\<exists>c. isValidAtIndex P (Some c) (int i) \<and> V ! i = Some (transform_at P c (int i)))"
  proof
    fix i assume i: "i \<in> editableIndices P"
    with wf have "i < lengthP P" by (auto simp: wf_pattern_def)
    with assms have "wf_cell P ph i (V ! i)" by (simp add: wf_buffer_def)
    with i have "V ! i = Some ph \<or> (\<exists>s. stored_at P i s \<and> V ! i = Some s)"
      by (simp add: wf_cell_def)
    then show "V ! i = Some ph
            \<or> (\<exists>c. isValidAtIndex P (Some c) (int i) \<and> V ! i = Some (transform_at P c (int i)))"
      unfolding stored_at_def by blast
  qed
qed

subsection \<open>The phone-number scenario\<close>

text \<open>
  Claim C4, as amended: for the mask \<open>(111) 111-1111\<close> with an empty value and the
  placeholder \<open>_\<close>, \<open>getValue()\<close> returns \<open>(___) ___-____\<close>; \<open>input('5')\<close> at the
  selection \<open>{0,0}\<close> succeeds, makes the buffer \<open>(5__) ___-____\<close> and leaves the
  cursor behind the character it stored, at \<open>{2,2}\<close>.
\<close>

theorem phone_scenario:
  "\<not> isl (InputMask_new (default_props ''(111) 111-1111''))
   \<and> cur phone_mask = \<lparr>sel_start = 0, sel_end = 0\<rparr>
   \<and> fst (getValue phone_mask) = ''(___) ___-____''
   \<and> fst (input ''5'' phone_mask)
   \<and> valueBuf (snd (input ''5'' phone_mask)) = map Some (split_chars ''(5__) ___-____'')
   \<and> cur (snd (input ''5'' phone_mask)) = \<lparr>sel_start = 2, sel_end = 2\<rparr>"
  by code_simp

text \<open>The selection is not \<open>{1,1}\<close> after that \<open>input('5')\<close>.\<close>

theorem phone_scenario_counterexample:
  "cur (snd (input ''5'' phone_mask)) \<noteq> \<lparr>sel_start = 1, sel_end = 1\<rparr>"
  by code_simp

subsection \<open>Formatting the raw value of a well-formed buffer\<close>

lemma filter_Cons_find: "filter Q xs = y # ys \<Longrightarrow> find Q xs = Some y"
  by (induction xs) (auto split: if_splits)

lemma drop_Cons_nth: "drop c xs = y # ys \<Longrightarrow> c < length xs \<and> xs ! c = y \<and> drop (Suc c) xs = ys"
  by (metis Cons_nth_drop_Suc drop_all drop_eq_Nil list.distinct(1) list.inject not_le)

lemma split_join_single:
  "\<forall>x\<in>set L. \<exists>c. x = Some [c] \<Longrightarrow> split_chars (join L) = map the L"
  by (induction L) (auto simp: join_def split_chars_def)

lemma rest_cells_step:
  "i < lengthP P \<Longrightarrow>
     rest_cells P V i =
       (if i \<in> editableIndices P then the (V ! i) # rest_cells P V (Suc i)
        else rest_cells P V (Suc i))"
  by (simp add: rest_cells_def upt_conv_Cons)

lemma getRawValue_rest_cells:
  assumes pm: "plain_mask P ph" and wf: "wf_buffer P ph V"
    and m: "pattern m = P" "valueBuf m = V"
  shows "split_chars (getRawValue m) = rest_cells P V 0"
proof -
  from wf have len: "length V = lengthP P" by (simp add: wf_buffer_def)
  have "\<forall>x\<in>set (map ((!) V) (filter (\<lambda>i. i \<in> editableIndices P) [0..<lengthP P])).
          \<exists>c. x = Some [c]"
  proof
    fix x assume "x \<in> set (map ((!) V) (filter (\<lambda>i. i \<in> editableIndices P) [0..<lengthP P]))"
    then obtain i where "i < lengthP P" "x = V ! i" by auto
    with wf wf_cell_single[OF pm] show "\<exists>c. x = Some [c]"
      by (auto simp: wf_buffer_def)
  qed
  from split_join_single[OF this] show ?thesis
    by (simp add: getRawValue_def m len rest_cells_def comp_def)
qed

lemma cursor_rest_cells:
  assumes pm: "plain_mask P ph" and wf: "wf_buffer P ph V" and la: "literals_apart P ph"
  shows "i \<le> lengthP P \<Longrightarrow>
           drop (cursor_at P (rest_cells P V 0) i) (rest_cells P V 0) = rest_cells P V i"
proof (induction i)
  case 0
  then show ?case by simp
next
  case (Suc i)
  let ?val = "rest_cells P V 0"
  let ?c = "cursor_at P ?val i"
  from Suc.prems have lt: "i < lengthP P" by simp
  from Suc.IH lt have ih: "drop ?c ?val = rest_cells P V i" by simp
  from pm have wfp: "wf_pattern P" by (simp add: plain_mask_def)
  show ?case
  proof (cases "i \<in> editableIndices P")
    case True
    with ih lt have "drop ?c ?val = the (V ! i) # rest_cells P V (Suc i)"
      by (simp add: rest_cells_step)
    from drop_Cons_nth[OF this] True show ?thesis by simp
  next
    case False
    with ih lt have d: "drop ?c ?val = rest_cells P V (Suc i)"
      by (simp add: rest_cells_step)
    have "\<not> (length ?val > ?c \<and> at ?val ?c = pattern_at P (int i))"
    proof
      assume a: "length ?val > ?c \<and> at ?val ?c = pattern_at P (int i)"
      then have "drop ?c ?val \<noteq> []" by simp
      with d obtain s ss where r: "rest_cells P V (Suc i) = s # ss" by (cases "rest_cells P V (Suc i)") auto
      then obtain j js where f: "filter (\<lambda>k. k \<in> editableIndices P) [Suc i..<lengthP P] = j # js"
        and s: "s = the (V ! j)"
        by (auto simp: rest_cells_def)
      from filter_Cons_find[OF f] have ne: "next_editable P i = Some j"
        by (simp add: next_editable_def)
      from f have "j \<in> set (filter (\<lambda>k. k \<in> editableIndices P) [Suc i..<lengthP P])" by simp
      then have j: "j \<in> editableIndices P" "j < lengthP P" by auto
      from la lt False ne have apart: "[patternP P ! i] \<noteq> ph" "\<not> stored_at P j [patternP P ! i]"
        by (auto simp: literals_apart_def)
      from wf j have "wf_cell P ph j (V ! j)" by (simp add: wf_buffer_def)
      with j(1) have "V ! j = Some ph \<or> (\<exists>t. stored_at P j t \<and> V ! j = Some t)"
        by (simp add: wf_cell_def)
      with apart s have sne: "s \<noteq> [patternP P ! i]" by auto
      from d r have "drop ?c ?val = s # ss" by simp
      from drop_Cons_nth[OF this] have "?val ! ?c = s" by simp
      with a have "Some s = pattern_at P (int i)" by (auto simp: at_def)
      with pattern_at_nat[OF wfp lt] sne show False by simp
    qed
    with False d show ?thesis by auto
  qed
qed

lemma slot_cell_rest_cells:
  assumes pm: "plain_mask P ph" and wf: "wf_buffer P ph V" and la: "literals_apart P ph"
    and cs: "cell_stable P ph" and i: "i < lengthP P"
  shows "slot_cell P (rest_cells P V 0) i = V ! i"
proof (cases "i \<in> editableIndices P")
  case False
  from pm have wfp: "wf_pattern P" by (simp add: plain_mask_def)
  from wf i False have "V ! i = Some [patternP P ! i]" by (simp add: wf_buffer_def wf_cell_def)
  with False pattern_at_nat[OF wfp i] show ?thesis by (simp add: slot_cell_def)
next
  case True
  let ?val = "rest_cells P V 0"
  let ?c = "cursor_at P ?val i"
  from pm have php: "placeholderCharP P = ph" by (simp add: plain_mask_def)
  from cursor_rest_cells[OF pm wf la, of i] i True
  have "drop ?c ?val = the (V ! i) # rest_cells P V (Suc i)"
    by (simp add: rest_cells_step)
  from drop_Cons_nth[OF this] have c: "?c < length ?val" and v: "?val ! ?c = the (V ! i)"
    by simp_all
  from wf i have "wf_cell P ph i (V ! i)" by (simp add: wf_buffer_def)
  with True have "V ! i = Some ph \<or> (\<exists>t. stored_at P i t \<and> V ! i = Some t)"
    by (simp add: wf_cell_def)
  then obtain s where s: "V ! i = Some s" "s = ph \<or> stored_at P i s" by auto
  with cs True have "reformat P i s = s" unfolding cell_stable_def by blast
  with s(1) c v True php show ?thesis
    by (auto simp: slot_cell_def at_def reformat_def split: if_splits)
qed

lemma formatValue_raw:
  assumes pm: "plain_mask P ph" and wf: "wf_buffer P ph V" and la: "literals_apart P ph"
    and cs: "cell_stable P ph"
  shows "formatValue P (rest_cells P V 0) = V"
proof -
  from pm have nr: "\<not> isRevealingMask P" by (simp add: plain_mask_def)
  from wf have len: "length V = lengthP P" by (simp add: wf_buffer_def)
  show ?thesis
    unfolding formatValue_not_revealing[OF nr]
    using slot_cell_rest_cells[OF pm wf la cs] len
    by (auto intro: nth_equalityI)
qed

subsection \<open>The built-in format characters\<close>

lemma upper_char_lower: "x \<in> set lower_letters \<Longrightarrow> upper_char x \<in> set upper_letters"
  by (auto simp: lower_letters_def upper_letters_def upper_char_def)

lemma upper_char_other: "x \<notin> set lower_letters \<Longrightarrow> upper_char x = x"
  by (auto simp: lower_letters_def upper_letters_def upper_char_def
        map_of_eq_None_iff[THEN iffD2])

lemma upper_not_lower: "x \<in> set upper_letters \<Longrightarrow> x \<notin> set lower_letters"
  by (auto simp: lower_letters_def upper_letters_def)

lemma digit_not_lower: "x \<in> set digits \<Longrightarrow> x \<notin> set lower_letters"
  by (auto simp: lower_letters_def digits_def)

lemma upper_char_idem: "upper_char (upper_char x) = upper_char x"
proof (cases "x \<in> set lower_letters")
  case True
  from upper_not_lower[OF upper_char_lower[OF True]] show ?thesis
    by (rule upper_char_other)
next
  case False
  then show ?thesis by (simp add: upper_char_other)
qed

lemma LETTER_RE_upper: "LETTER_RE c \<Longrightarrow> LETTER_RE (toUpperCase c)"
  by (cases c; cases "tl c"; cases "hd c \<in> set lower_letters")
     (auto simp: LETTER_RE_def toUpperCase_def upper_char_other dest: upper_char_lower)

lemma ALNUM_RE_upper: "ALPHANNUMERIC_RE c \<Longrightarrow> ALPHANNUMERIC_RE (toUpperCase c)"
  by (cases c; cases "tl c"; cases "hd c \<in> set lower_letters")
     (auto simp: ALPHANNUMERIC_RE_def toUpperCase_def upper_char_other dest: upper_char_lower)

lemma toUpperCase_idem: "toUpperCase (toUpperCase c) = toUpperCase c"
  by (simp add: toUpperCase_def upper_char_idem)

lemma RE_alnum: "DIGIT_RE c \<Longrightarrow> ALPHANNUMERIC_RE c" "LETTER_RE c \<Longrightarrow> ALPHANNUMERIC_RE c"
  by (auto simp: DIGIT_RE_def LETTER_RE_def ALPHANNUMERIC_RE_def split: list.splits)

lemma default_validate_alnum:
  "DEFAULT_FORMAT_CHARACTERS x = Some f \<Longrightarrow> validate f (Some c) \<Longrightarrow> ALPHANNUMERIC_RE c"
  by (auto simp: DEFAULT_FORMAT_CHARACTERS_def re_test_def RE_alnum split: if_splits)

text \<open>What a built-in slot stores is accepted by the slot and stored as it is.\<close>

lemma default_stored_again:
  assumes x: "DEFAULT_FORMAT_CHARACTERS x = Some f" and v: "validate f (Some c)"
  shows "validate f (Some (case transform f of None \<Rightarrow> c | Some t \<Rightarrow> t c))"
    and "(case transform f of None \<Rightarrow> (case transform f of None \<Rightarrow> c | Some t \<Rightarrow> t c)
          | Some t' \<Rightarrow> t' (case transform f of None \<Rightarrow> c | Some t \<Rightarrow> t c))
         = (case transform f of None \<Rightarrow> c | Some t \<Rightarrow> t c)"
  using assms
  by (auto simp: DEFAULT_FORMAT_CHARACTERS_def re_test_def LETTER_RE_upper ALNUM_RE_upper
        toUpperCase_idem split: if_splits)

lemma default_stored_props:
  assumes fc: "formatCharactersP P = DEFAULT_FORMAT_CHARACTERS" and st: "stored_at P i s"
  shows "isValidAtIndex P (Some s) (int i)" and "transform_at P s (int i) = s"
    and "ALPHANNUMERIC_RE s"
proof -
  from st obtain c where v: "isValidAtIndex P (Some c) (int i)" and s: "s = transform_at P c (int i)"
    by (auto simp: stored_at_def)
  from v obtain f where f: "format_at P (int i) = Some f" and vf: "validate f (Some c)"
    by (auto simp: isValidAtIndex_def split: option.splits)
  from f fc obtain x where x: "DEFAULT_FORMAT_CHARACTERS x = Some f"
    by (auto simp: format_at_def split: if_splits)
  from s f have s': "s = (case transform f of None \<Rightarrow> c | Some t \<Rightarrow> t c)"
    by (simp add: transform_at_def)
  from default_stored_again(1)[OF x vf] f show valid: "isValidAtIndex P (Some s) (int i)"
    by (simp add: isValidAtIndex_def s')
  from default_stored_again(2)[OF x vf] f show "transform_at P s (int i) = s"
    by (simp add: transform_at_def s')
  from valid f have "validate f (Some s)" by (simp add: isValidAtIndex_def)
  from default_validate_alnum[OF x this] show "ALPHANNUMERIC_RE s" .
qed

lemma default_cell_stable:
  assumes fc: "formatCharactersP P = DEFAULT_FORMAT_CHARACTERS"
    and ph: "placeholderCharP P = ph" and na: "\<not> ALPHANNUMERIC_RE ph"
  shows "cell_stable P ph"
  unfolding cell_stable_def
proof (intro ballI allI impI)
  fix i s
  assume "s = ph \<or> stored_at P i s"
  then show "reformat P i s = s"
  proof
    assume s: "s = ph"
    have "\<not> isValidAtIndex P (Some ph) (int i)"
    proof
      assume "isValidAtIndex P (Some ph) (int i)"
      then obtain f where f: "format_at P (int i) = Some f" and vf: "validate f (Some ph)"
        by (auto simp: isValidAtIndex_def split: option.splits)
      from f fc obtain x where x: "DEFAULT_FORMAT_CHARACTERS x = Some f"
        by (auto simp: format_at_def split: if_splits)
      from default_validate_alnum[OF x vf] na show False by simp
    qed
    with s ph show ?thesis by (simp add: reformat_def)
  next
    assume "stored_at P i s"
    from default_stored_props(1,2)[OF fc this] show ?thesis by (simp add: reformat_def)
  qed
qed

lemma literal_chars_mem:
  "i < lengthP P \<Longrightarrow> i \<notin> editableIndices P \<Longrightarrow> patternP P ! i \<in> set (literal_chars P)"
  by (auto simp: literal_chars_def)

lemma default_literals_apart:
  assumes fc: "formatCharactersP P = DEFAULT_FORMAT_CHARACTERS"
    and lp: "literals_plain P ph"
  shows "literals_apart P ph"
  unfolding literals_apart_def
proof (intro allI impI)
  fix i assume i: "i < lengthP P" "i \<notin> editableIndices P"
  from literal_chars_mem[OF i] lp
  have c: "patternP P ! i \<notin> set (digits @ upper_letters @ lower_letters)"
    and p: "[patternP P ! i] \<noteq> ph"
    by (auto simp: literals_plain_def list_all_iff)
  have "\<not> stored_at P j [patternP P ! i]" for j
  proof
    assume "stored_at P j [patternP P ! i]"
    from default_stored_props(3)[OF fc this] c show False
      by (simp add: ALPHANNUMERIC_RE_def)
  qed
  with p show "case next_editable P i of None \<Rightarrow> True
         | Some j \<Rightarrow> [patternP P ! i] \<noteq> ph \<and> \<not> stored_at P j [patternP P ! i]"
    by (simp split: option.splits)
qed

lemma setValue_getRawValue:
  assumes pm: "plain_mask P ph" and inv: "engine_inv P ph m"
    and la: "literals_apart P ph" and cs: "cell_stable P ph"
  shows "valueBuf (setValue (getRawValue m) m) = valueBuf m"
proof -
  from inv have P: "pattern m = P" and wf: "wf_buffer P ph (valueBuf m)"
    by (simp_all add: engine_inv_def)
  from getRawValue_rest_cells[OF pm wf P refl] formatValue_raw[OF pm wf la cs] P
  show ?thesis by (simp add: setValue_def)
qed

subsection \<open>A rejected paste after an undo\<close>

text \<open>
  Claim C1 at a failing input: on the mask \<open>11\<close>, after \<open>input('1')\<close>, \<open>input('2')\<close>
  and \<open>undo()\<close>, the call \<open>paste('1a')\<close> returns false, and the oldest history item,
  whose selection was \<open>{0,0}\<close> before the call, has the selection \<open>{1,1}\<close> after it:
  the item's selection object is the engine's current selection since the undo, and
  the first pasted character moved it before the second was rejected.
\<close>

theorem paste_after_undo_changes_history:
  "\<not> fst (paste ''1a'' two_digits_undone)
   \<and> history_view two_digits_undone =
       [(''__'', \<lparr>sel_start = 0, sel_end = 0\<rparr>, None, False),
        (''12'', \<lparr>sel_start = 2, sel_end = 2\<rparr>, Some ''input'', True)]
   \<and> history_view (snd (paste ''1a'' two_digits_undone)) =
       [(''__'', \<lparr>sel_start = 1, sel_end = 1\<rparr>, None, False),
        (''12'', \<lparr>sel_start = 2, sel_end = 2\<rparr>, Some ''input'', True)]"
  by code_simp

text \<open>
  Claim C6: a source that ends in an unescaped escape character (an odd number of
  trailing escape characters) does not compile, nor does a source without an unescaped
  registered character. When a source compiles, the pattern's length is the source's
  length less one per escape pair, some slot is editable, and the character behind an
  escape character is one slot holding that character, not editable, whatever the
  registry says of it. The mask of two backslashes and \<open>1\<close> compiles to two slots: a
  literal backslash at index 0 and an editable digit slot at index 1.
\<close>

theorem pattern_compilation:
  "(odd (trailing_escapes src) \<longrightarrow> Pattern_new src fc ph rv = Inl UnterminatedEscape)
   \<and> (even (trailing_escapes src) \<and> editable_slots fc src = 0
        \<longrightarrow> Pattern_new src fc ph rv = Inl EmptyPattern)
   \<and> (\<forall>P. Pattern_new src fc ph rv = Inr P \<longrightarrow>
         lengthP P = length (patternP P)
         \<and> lengthP P + escape_pairs src = length src
         \<and> editableIndices P \<noteq> {}
         \<and> (\<forall>pre c rest st.
               src = pre @ ESCAPE_CHAR # c # rest \<and> parse_loop fc pre parse_start = Inr st
               \<longrightarrow> length (ps_pattern st) < lengthP P
                   \<and> patternP P ! length (ps_pattern st) = c
                   \<and> length (ps_pattern st) \<notin> editableIndices P))
   \<and> \<not> isl escaped_backslash
   \<and> patternP (projr escaped_backslash) = [ESCAPE_CHAR, CHR ''1'']
   \<and> lengthP (projr escaped_backslash) = 2
   \<and> editableIndices (projr escaped_backslash) = {1}
   \<and> isValidAtIndex (projr escaped_backslash) (Some ''7'') 1
   \<and> \<not> isValidAtIndex (projr escaped_backslash) (Some ''x'') 1"
proof -
  have a: "odd (trailing_escapes src) \<longrightarrow> Pattern_new src fc ph rv = Inl UnterminatedEscape"
    using parse_loop_unterminated[of fc src parse_start]
    by (auto simp: Pattern_new_cases split: sum.splits)
  have b: "even (trailing_escapes src) \<and> editable_slots fc src = 0
             \<longrightarrow> Pattern_new src fc ph rv = Inl EmptyPattern"
    using parse_loop_unterminated[of fc src parse_start]
    by (auto simp: Pattern_new_cases split: sum.splits)
  have c: "\<forall>P. Pattern_new src fc ph rv = Inr P \<longrightarrow>
         lengthP P = length (patternP P)
         \<and> lengthP P + escape_pairs src = length src
         \<and> editableIndices P \<noteq> {}
         \<and> (\<forall>pre c rest st.
               src = pre @ ESCAPE_CHAR # c # rest \<and> parse_loop fc pre parse_start = Inr st
               \<longrightarrow> length (ps_pattern st) < lengthP P
                   \<and> patternP P ! length (ps_pattern st) = c
                   \<and> length (ps_pattern st) \<notin> editableIndices P)"
  proof (intro allI impI)
    fix P assume P: "Pattern_new src fc ph rv = Inr P"
    from P obtain st where st: "parse_loop fc src parse_start = Inr st"
      and PP: "patternP P = ps_pattern st" "lengthP P = length (ps_pattern st)"
      by (auto simp: Pattern_new_cases split: sum.splits if_splits)
    from parse_loop_grows[OF st] have "lengthP P + escape_pairs src = length src"
      by (simp add: PP parse_start_def)
    moreover from Pattern_new_wf(1)[OF P] have "editableIndices P \<noteq> {}"
      by (auto simp: wf_pattern_def)
    moreover have "\<forall>pre c rest st.
               src = pre @ ESCAPE_CHAR # c # rest \<and> parse_loop fc pre parse_start = Inr st
               \<longrightarrow> length (ps_pattern st) < lengthP P
                   \<and> patternP P ! length (ps_pattern st) = c
                   \<and> length (ps_pattern st) \<notin> editableIndices P"
    proof (intro allI impI, elim conjE)
      fix pre c rest st'
      assume s: "src = pre @ ESCAPE_CHAR # c # rest"
        and p: "parse_loop fc pre parse_start = Inr st'"
      from P s have "Pattern_new (pre @ ESCAPE_CHAR # c # rest) fc ph rv = Inr P" by simp
      from escape_emits_literal[OF p this]
      show "length (ps_pattern st') < lengthP P
              \<and> patternP P ! length (ps_pattern st') = c
              \<and> length (ps_pattern st') \<notin> editableIndices P" by simp
    qed
    moreover have "lengthP P = length (patternP P)" by (simp add: PP)
    ultimately show "lengthP P = length (patternP P)
         \<and> lengthP P + escape_pairs src = length src
         \<and> editableIndices P \<noteq> {}
         \<and> (\<forall>pre c rest st.
               src = pre @ ESCAPE_CHAR # c # rest \<and> parse_loop fc pre parse_start = Inr st
               \<longrightarrow> length (ps_pattern st) < lengthP P
                   \<and> patternP P ! length (ps_pattern st) = c
                   \<and> length (ps_pattern st) \<notin> editableIndices P)"
      by blast
  qed
  have d: "\<not> isl escaped_backslash
   \<and> patternP (projr escaped_backslash) = [ESCAPE_CHAR, CHR ''1'']
   \<and> lengthP (projr escaped_backslash) = 2
   \<and> editableIndices (projr escaped_backslash) = {1}
   \<and> isValidAtIndex (projr escaped_backslash) (Some ''7'') 1
   \<and> \<not> isValidAtIndex (projr escaped_backslash) (Some ''x'') 1"
    by code_simp
  from a b c d show ?thesis by blast
qed

text \<open>The theorem at the mask of two backslashes and \<open>1\<close>, at the source \<open>1\<close> followed
  by a backslash, and at the source \<open>(-)\<close>.\<close>

theorem pattern_compilation_witness:
  "even (trailing_escapes [ESCAPE_CHAR, ESCAPE_CHAR, CHR ''1''])
   \<and> Pattern_new [ESCAPE_CHAR, ESCAPE_CHAR, CHR ''1''] DEFAULT_FORMAT_CHARACTERS ''_'' False
       = Inr (projr escaped_backslash)
   \<and> [ESCAPE_CHAR, ESCAPE_CHAR, CHR ''1''] = [] @ ESCAPE_CHAR # ESCAPE_CHAR # [CHR ''1'']
   \<and> parse_loop DEFAULT_FORMAT_CHARACTERS [] parse_start = Inr parse_start
   \<and> lengthP (projr escaped_backslash) + escape_pairs [ESCAPE_CHAR, ESCAPE_CHAR, CHR ''1''] = 3
   \<and> patternP (projr escaped_backslash) ! 0 = ESCAPE_CHAR
   \<and> 0 \<notin> editableIndices (projr escaped_backslash)
   \<and> odd (trailing_escapes [CHR ''1'', ESCAPE_CHAR])
   \<and> Pattern_new [CHR ''1'', ESCAPE_CHAR] DEFAULT_FORMAT_CHARACTERS ''_'' False
       = Inl UnterminatedEscape
   \<and> editable_slots DEFAULT_FORMAT_CHARACTERS ''(-)'' = 0
   \<and> Pattern_new ''(-)'' DEFAULT_FORMAT_CHARACTERS ''_'' False = Inl EmptyPattern"
proof -
  let ?src = "[ESCAPE_CHAR, ESCAPE_CHAR, CHR ''1'']"
  have ok: "\<not> isl escaped_backslash"
    using pattern_compilation[of ?src DEFAULT_FORMAT_CHARACTERS "''_''" False] by blast
  then have eq: "Pattern_new ?src DEFAULT_FORMAT_CHARACTERS ''_'' False = Inr (projr escaped_backslash)"
    by (cases escaped_backslash) (simp_all add: escaped_backslash_def)
  have pre: "parse_loop DEFAULT_FORMAT_CHARACTERS [] parse_start = Inr parse_start"
    by simp
  have split: "?src = [] @ ESCAPE_CHAR # ESCAPE_CHAR # [CHR ''1'']" by simp
  have ev: "even (trailing_escapes ?src)"
    by (simp add: trailing_escapes_def ESCAPE_CHAR_def)
  from pattern_compilation[of ?src DEFAULT_FORMAT_CHARACTERS "''_''" False] eq
  have len: "lengthP (projr escaped_backslash) + escape_pairs ?src = length ?src"
    and esc: "\<forall>pre c rest st.
               ?src = pre @ ESCAPE_CHAR # c # rest
               \<and> parse_loop DEFAULT_FORMAT_CHARACTERS pre parse_start = Inr st
               \<longrightarrow> length (ps_pattern st) < lengthP (projr escaped_backslash)
                   \<and> patternP (projr escaped_backslash) ! length (ps_pattern st) = c
                   \<and> length (ps_pattern st) \<notin> editableIndices (projr escaped_backslash)"
    by blast+
  from esc split pre have lit: "patternP (projr escaped_backslash) ! 0 = ESCAPE_CHAR"
    "0 \<notin> editableIndices (projr escaped_backslash)"
    by (metis list.size(3) parse_start_def parse_state.select_convs(1))+
  have od: "odd (trailing_escapes [CHR ''1'', ESCAPE_CHAR])"
    by (simp add: trailing_escapes_def ESCAPE_CHAR_def)
  with pattern_compilation[of "[CHR ''1'', ESCAPE_CHAR]" DEFAULT_FORMAT_CHARACTERS "''_''" False]
  have un: "Pattern_new [CHR ''1'', ESCAPE_CHAR] DEFAULT_FORMAT_CHARACTERS ''_'' False
       = Inl UnterminatedEscape" by blast
  have ze: "editable_slots DEFAULT_FORMAT_CHARACTERS ''(-)'' = 0"
    by (simp add: DEFAULT_FORMAT_CHARACTERS_def ESCAPE_CHAR_def)
  have "even (trailing_escapes ''(-)'')"
    by (simp add: trailing_escapes_def ESCAPE_CHAR_def)
  with ze pattern_compilation[of "''(-)''" DEFAULT_FORMAT_CHARACTERS "''_''" False]
  have em: "Pattern_new ''(-)'' DEFAULT_FORMAT_CHARACTERS ''_'' False = Inl EmptyPattern"
    by blast
  from ev eq split pre len lit od un ze em show ?thesis by simp
qed

text \<open>
  Claim C8, as amended: \<open>input(char)\<close> returns false in exactly two situations, the
  selection collapsed at the end of the pattern, and an editable insertion index
  (the larger of \<open>selection.start\<close> and \<open>firstEditableIndex\<close>) whose validator rejects
  the character. In both, every field of the engine but the buffer is as before, and
  so is the buffer on a mask that is not revealing; on a revealing mask the call the
  validator rejects leaves the buffer as \<open>getValue\<close> rebuilt it from the raw value. On
  the mask \<open>aa\<close>, \<open>input('1')\<close> returns false and the buffer is unchanged.
\<close>

theorem input_rejection:
  "(\<not> fst (input char m) \<longleftrightarrow>
      at_end m
      \<or> (isEditableIndex (pattern m) (insertion_index m)
         \<and> \<not> isValidAtIndex (pattern m) (Some char) (insertion_index m)))
   \<and> (\<not> fst (input char m) \<longrightarrow>
        snd (input char m) =
          m\<lparr>valueBuf := (if isRevealingMask (pattern m) \<and> \<not> at_end m
                          then formatValue (pattern m) (split_chars (getRawValue m))
                          else valueBuf m)\<rparr>)
   \<and> \<not> fst (input ''1'' letters_mask)
   \<and> valueBuf (snd (input ''1'' letters_mask)) = valueBuf letters_mask
   \<and> valueBuf letters_mask = [Some ''_'', Some ''_'']"
proof -
  have a: "\<not> fst (input char m) \<longrightarrow>
        snd (input char m) =
          m\<lparr>valueBuf := (if isRevealingMask (pattern m) \<and> \<not> at_end m
                          then formatValue (pattern m) (split_chars (getRawValue m))
                          else valueBuf m)\<rparr>"
    by (auto simp: input_False_state getValue_snd)
  have b: "\<not> fst (input ''1'' letters_mask)
   \<and> valueBuf (snd (input ''1'' letters_mask)) = valueBuf letters_mask
   \<and> valueBuf letters_mask = [Some ''_'', Some ''_'']"
    by code_simp
  from a b input_False_iff[of char m] show ?thesis by blast
qed

text \<open>The theorem at the mask \<open>aa\<close> and the character \<open>1\<close>.\<close>

theorem input_rejection_witness:
  "\<not> fst (input ''1'' letters_mask)
   \<and> \<not> at_end letters_mask
   \<and> isEditableIndex (pattern letters_mask) (insertion_index letters_mask)
   \<and> \<not> isValidAtIndex (pattern letters_mask) (Some ''1'') (insertion_index letters_mask)
   \<and> snd (input ''1'' letters_mask) = letters_mask"
proof -
  have f: "\<not> fst (input ''1'' letters_mask)" and e: "\<not> at_end letters_mask"
    and r: "\<not> isRevealingMask (pattern letters_mask)"
    by code_simp+
  have v: "isEditableIndex (pattern letters_mask) (insertion_index letters_mask)
   \<and> \<not> isValidAtIndex (pattern letters_mask) (Some ''1'') (insertion_index letters_mask)"
    using input_rejection[of "''1''" letters_mask] f e by blast
  have "snd (input ''1'' letters_mask) =
          letters_mask\<lparr>valueBuf := (if isRevealingMask (pattern letters_mask) \<and> \<not> at_end letters_mask
                          then formatValue (pattern letters_mask) (split_chars (getRawValue letters_mask))
                          else valueBuf letters_mask)\<rparr>"
    using input_rejection[of "''1''" letters_mask] f by blast
  with r have s: "snd (input ''1'' letters_mask) = letters_mask" by simp
  from f e v s show ?thesis by blast
qed

text \<open>On the revealing mask \<open>11\<close> holding \<open>12\<close>, after a backspace at the end, the
  rejected \<open>input('x')\<close> changes the buffer: it had one cell and has two.\<close>

theorem input_rejection_counterexample:
  "\<not> fst (input ''x'' revealing_after_backspace)
   \<and> valueBuf revealing_after_backspace = [Some ''1'']
   \<and> valueBuf (snd (input ''x'' revealing_after_backspace)) = [Some ''1'', None]"
  by code_simp



text \<open>
  Claim C7, as amended: \<open>formatValue\<close> stops at the first editable slot of a revealing
  mask that it reaches with the candidate characters used up and whose validator
  rejects \<open>undefined\<close>; with the built-in format characters that is the first editable
  slot reached with the candidates used up. What it returns is, before that slot, what
  the mask gives without the revealing mode, and holes from there on, not
  placeholders: the string it joins to is that of the slots before the stop. The
  revealing mask \<open>111-111\<close> in which \<open>1\<close> and \<open>2\<close> were typed gives \<open>12\<close> as its value
  and as its raw value.
\<close>

theorem revealing_formatValue:
  "formatValue P val =
     take (stop_from P val 0) (formatValue (P\<lparr>isRevealingMask := False\<rparr>) val)
       @ replicate (lengthP P - stop_from P val 0) None
   \<and> join (formatValue P val) =
       join (take (stop_from P val 0) (formatValue (P\<lparr>isRevealingMask := False\<rparr>) val))
   \<and> stop_from P val 0 \<le> lengthP P
   \<and> (stop_from P val 0 < lengthP P \<longrightarrow> breaks_at P val (stop_from P val 0))
   \<and> (\<forall>j<stop_from P val 0. \<not> breaks_at P val j)
   \<and> (\<forall>i. breaks_at P val i \<longleftrightarrow>
            isRevealingMask P \<and> exhausted_at P val i \<and> \<not> isValidAtIndex P None (int i))
   \<and> (formatCharactersP P = DEFAULT_FORMAT_CHARACTERS \<longrightarrow>
        (\<forall>i. breaks_at P val i \<longleftrightarrow> isRevealingMask P \<and> exhausted_at P val i))
   \<and> isRevealingMask (pattern revealing_12)
   \<and> fst (getValue revealing_12) = ''12''
   \<and> getRawValue revealing_12 = ''12''
   \<and> getRawValue (snd (getValue revealing_12)) = ''12''"
proof -
  note eq = formatValue_take_stop[of P val]
  have j: "join (formatValue P val) =
       join (take (stop_from P val 0) (formatValue (P\<lparr>isRevealingMask := False\<rparr>) val))"
    by (subst eq) (simp add: join_append join_replicate_None)
  have d: "formatCharactersP P = DEFAULT_FORMAT_CHARACTERS \<longrightarrow>
        (\<forall>i. breaks_at P val i \<longleftrightarrow> isRevealingMask P \<and> exhausted_at P val i)"
    by (simp add: breaks_at_iff default_isValidAtIndex_undefined)
  have b: "isRevealingMask (pattern revealing_12)
   \<and> fst (getValue revealing_12) = ''12''
   \<and> getRawValue revealing_12 = ''12''
   \<and> getRawValue (snd (getValue revealing_12)) = ''12''"
    by code_simp
  from eq j d b stop_from_props breaks_at_iff show ?thesis by blast
qed

text \<open>The theorem at the revealing pattern \<open>111-111\<close> and the candidate characters
  \<open>12\<close>: the loop stops at slot 2.\<close>

theorem revealing_formatValue_witness:
  "isRevealingMask (projr revealing_pattern)
   \<and> stop_from (projr revealing_pattern) (split_chars ''12'') 0 = 2
   \<and> take 2 (formatValue ((projr revealing_pattern)\<lparr>isRevealingMask := False\<rparr>)
               (split_chars ''12'')) = [Some ''1'', Some ''2'']
   \<and> formatValue (projr revealing_pattern) (split_chars ''12'')
       = [Some ''1'', Some ''2'', None, None, None, None, None]
   \<and> join (formatValue (projr revealing_pattern) (split_chars ''12'')) = ''12''
   \<and> exhausted_at (projr revealing_pattern) (split_chars ''12'') 2"
proof -
  let ?P = "projr revealing_pattern"
  let ?v = "split_chars ''12''"
  have "\<not> isl revealing_pattern" by code_simp
  then have new: "Pattern_new ''111-111'' DEFAULT_FORMAT_CHARACTERS ''_'' True = Inr ?P"
    by (cases revealing_pattern) (simp_all add: revealing_pattern_def)
  from Pattern_new_wf(2,3)[OF new] have fc: "formatCharactersP ?P = DEFAULT_FORMAT_CHARACTERS"
    and r: "isRevealingMask ?P" by simp_all
  have k: "stop_from ?P ?v 0 = 2"
    and l: "lengthP ?P = 7"
    and t: "take 2 (formatValue (?P\<lparr>isRevealingMask := False\<rparr>) ?v) = [Some ''1'', Some ''2'']"
    by code_simp+
  from revealing_formatValue[of ?P ?v]
  have eq: "formatValue ?P ?v =
          take (stop_from ?P ?v 0) (formatValue (?P\<lparr>isRevealingMask := False\<rparr>) ?v)
            @ replicate (lengthP ?P - stop_from ?P ?v 0) None"
    and j: "join (formatValue ?P ?v) =
            join (take (stop_from ?P ?v 0) (formatValue (?P\<lparr>isRevealingMask := False\<rparr>) ?v))"
    and e: "stop_from ?P ?v 0 < lengthP ?P \<longrightarrow> breaks_at ?P ?v (stop_from ?P ?v 0)"
    and d: "formatCharactersP ?P = DEFAULT_FORMAT_CHARACTERS \<longrightarrow>
        (\<forall>i. breaks_at ?P ?v i \<longleftrightarrow> isRevealingMask ?P \<and> exhausted_at ?P ?v i)"
    by blast+
  from eq have f: "formatValue ?P ?v = [Some ''1'', Some ''2'', None, None, None, None, None]"
    unfolding k l t by (simp add: numeral_eq_Suc)
  from j have jj: "join (formatValue ?P ?v) = ''12''"
    unfolding k t by (simp add: join_def)
  from e have "breaks_at ?P ?v 2"
    unfolding k l by simp
  with d fc have ee: "exhausted_at ?P ?v 2" by blast
  from r k t f jj ee show ?thesis by blast
qed

text \<open>With a validator that accepts \<open>undefined\<close>, the revealing pattern \<open>xx\<close> does not stop
  at its first editable slot, though no candidate character is left there: it pads
  both slots with the placeholder.\<close>

theorem revealing_formatValue_counterexample:
  "\<not> isl accepting_pattern
   \<and> isRevealingMask (projr accepting_pattern)
   \<and> exhausted_at (projr accepting_pattern) [] 0
   \<and> formatValue (projr accepting_pattern) [] = [Some ''_'', Some ''_'']"
  by code_simp



text \<open>
  Claim C3, as amended: for a mask that is not revealing, built with a placeholder of
  one character, whose format characters store exactly one character for every input
  they accept (the built-in ones do), every state reached from the constructed engine
  by \<open>input\<close>, \<open>backspace\<close>, \<open>paste\<close>, \<open>undo\<close>, \<open>redo\<close>, \<open>setSelection\<close>, \<open>setValue\<close> and
  \<open>getValue\<close> calls has a buffer as long as the pattern, in which every literal slot
  holds the pattern's character and every editable slot holds the placeholder or what
  the slot stores for an input its validator accepts.
\<close>

theorem buffer_invariant:
  "(InputMask_new props = Inr m0 \<and> \<not> props_revealing props \<and> length (props_ph props) = 1
     \<and> (props_formatCharacters props = None \<or> stores_one_char (pattern m0))
     \<and> run calls m0 = Inr m
    \<longrightarrow> pattern m = pattern m0 \<and> placeholderChar m = placeholderChar m0
        \<and> length (valueBuf m) = lengthP (pattern m)
        \<and> (\<forall>i<lengthP (pattern m). i \<notin> editableIndices (pattern m)
              \<longrightarrow> valueBuf m ! i = Some [patternP (pattern m) ! i])
        \<and> (\<forall>i\<in>editableIndices (pattern m).
              valueBuf m ! i = Some (placeholderChar m)
              \<or> (\<exists>c. isValidAtIndex (pattern m) (Some c) (int i)
                     \<and> valueBuf m ! i = Some (transform_at (pattern m) c (int i)))))"
proof (intro impI, elim conjE)
  assume new: "InputMask_new props = Inr m0" and nr: "\<not> props_revealing props"
    and ph: "length (props_ph props) = 1"
    and reg: "props_formatCharacters props = None \<or> stores_one_char (pattern m0)"
    and run: "run calls m0 = Inr m"
  have one: "stores_one_char (pattern m0)"
  proof (cases "props_formatCharacters props")
    case None
    with InputMask_new_pattern(2)[OF new]
    have "formatCharactersP (pattern m0) = DEFAULT_FORMAT_CHARACTERS"
      by (simp add: mergeFormatCharacters_def)
    then show ?thesis by (rule default_stores_one_char)
  next
    case (Some a)
    with reg show ?thesis by simp
  qed
  note pm = InputMask_new_inv(1)[OF new nr ph one]
  from run_inv[OF pm InputMask_new_inv(2)[OF new nr ph one] run]
  have inv: "engine_inv (pattern m0) (placeholderChar m0) m" .
  then have P: "pattern m = pattern m0" and p: "placeholderChar m = placeholderChar m0"
    and wf: "wf_buffer (pattern m) (placeholderChar m) (valueBuf m)"
    by (simp_all add: engine_inv_def)
  from pm P have wfp: "wf_pattern (pattern m)" by (simp add: plain_mask_def)
  from P p wf_buffer_claims(1,2)[OF wf] wf_buffer_claims(3)[OF wf wfp]
  show "pattern m = pattern m0 \<and> placeholderChar m = placeholderChar m0
        \<and> length (valueBuf m) = lengthP (pattern m)
        \<and> (\<forall>i<lengthP (pattern m). i \<notin> editableIndices (pattern m)
              \<longrightarrow> valueBuf m ! i = Some [patternP (pattern m) ! i])
        \<and> (\<forall>i\<in>editableIndices (pattern m).
              valueBuf m ! i = Some (placeholderChar m)
              \<or> (\<exists>c. isValidAtIndex (pattern m) (Some c) (int i)
                     \<and> valueBuf m ! i = Some (transform_at (pattern m) c (int i))))"
    by blast
qed

text \<open>The theorem on the phone mask after ten calls of all eight kinds.\<close>

theorem buffer_invariant_witness:
  "InputMask_new (default_props ''(111) 111-1111'') = Inr phone_mask
   \<and> \<not> props_revealing (default_props ''(111) 111-1111'')
   \<and> length (props_ph (default_props ''(111) 111-1111'')) = 1
   \<and> props_formatCharacters (default_props ''(111) 111-1111'') = None
   \<and> run phone_calls phone_mask = Inr phone_mask_run
   \<and> length (valueBuf phone_mask_run) = lengthP (pattern phone_mask_run)
   \<and> valueBuf phone_mask_run = map Some (split_chars ''(415) 555-2671'')
   \<and> valueBuf phone_mask_run ! 0 = Some [patternP (pattern phone_mask_run) ! 0]"
proof -
  let ?props = "default_props ''(111) 111-1111''"
  have "\<not> isl (InputMask_new ?props)" by code_simp
  then have new: "InputMask_new ?props = Inr phone_mask"
    by (cases "InputMask_new ?props") (simp_all add: phone_mask_def)
  have nr: "\<not> props_revealing ?props" and ph: "length (props_ph ?props) = 1"
    and fc: "props_formatCharacters ?props = None"
    by (simp_all add: default_props_def props_revealing_def props_ph_def
          DEFAULT_PLACEHOLDER_CHAR_def)
  have "\<not> isl (run phone_calls phone_mask)" by code_simp
  then have run: "run phone_calls phone_mask = Inr phone_mask_run"
    by (cases "run phone_calls phone_mask") (simp_all add: phone_mask_run_def)
  have v: "valueBuf phone_mask_run = map Some (split_chars ''(415) 555-2671'')"
    and l: "0 < lengthP (pattern phone_mask_run)"
    and e: "0 \<notin> editableIndices (pattern phone_mask_run)"
    by code_simp+
  from buffer_invariant[of ?props phone_mask phone_calls phone_mask_run] new nr ph fc run
  have len: "length (valueBuf phone_mask_run) = lengthP (pattern phone_mask_run)"
    and lit: "\<forall>i<lengthP (pattern phone_mask_run). i \<notin> editableIndices (pattern phone_mask_run)
              \<longrightarrow> valueBuf phone_mask_run ! i = Some [patternP (pattern phone_mask_run) ! i]"
    by blast+
  from lit l e have "valueBuf phone_mask_run ! 0 = Some [patternP (pattern phone_mask_run) ! 0]"
    by blast
  with new nr ph fc run len v show ?thesis by blast
qed

text \<open>On the revealing mask \<open>11\<close> holding \<open>12\<close>, a backspace at the end leaves a buffer of
  one cell under a pattern of two slots.\<close>

theorem buffer_invariant_counterexample:
  "\<not> isl (InputMask_new revealing_props)
   \<and> run [Backspace] (projr (InputMask_new revealing_props)) = Inr revealing_after_backspace
   \<and> valueBuf revealing_after_backspace = [Some ''1'']
   \<and> lengthP (pattern revealing_after_backspace) = 2"
proof -
  have a: "\<not> isl (InputMask_new revealing_props)"
    and b: "valueBuf revealing_after_backspace = [Some ''1'']"
    and c: "lengthP (pattern revealing_after_backspace) = 2"
    by code_simp+
  have "run [Backspace] (projr (InputMask_new revealing_props)) = Inr revealing_after_backspace"
    by (simp add: revealing_after_backspace_def revealing_props_def)
  with a b c show ?thesis by blast
qed

text \<open>
  Claim C5, as amended: on a mask that is not revealing, built with a placeholder of
  one character, \<open>setValue(getRawValue())\<close> leaves the buffer as it is in every state
  reached by \<open>input\<close>, \<open>backspace\<close> and \<open>paste\<close> calls (and by \<open>undo\<close>, \<open>redo\<close>,
  \<open>setSelection\<close>, \<open>setValue\<close> and \<open>getValue\<close> calls as well), provided that every
  editable slot stores one character for an accepted input, that it stores again as
  it is whatever it can hold (the placeholder or a stored character), and that no
  literal character is the placeholder or a character stored by the editable slot
  that follows it. With the built-in format characters that is the case when the
  placeholder is not alphanumeric and no literal of the mask is alphanumeric or the
  placeholder.
\<close>

theorem raw_value_roundtrip:
  "(InputMask_new props = Inr m0 \<and> \<not> props_revealing props \<and> length (props_ph props) = 1
     \<and> (props_formatCharacters props = None \<and> \<not> ALPHANNUMERIC_RE (props_ph props)
           \<and> literals_plain (pattern m0) (props_ph props)
         \<or> stores_one_char (pattern m0) \<and> cell_stable (pattern m0) (props_ph props)
           \<and> literals_apart (pattern m0) (props_ph props))
     \<and> run calls m0 = Inr m
    \<longrightarrow> valueBuf (setValue (getRawValue m) m) = valueBuf m)"
proof (intro impI, elim conjE)
  assume new: "InputMask_new props = Inr m0" and nr: "\<not> props_revealing props"
    and ph: "length (props_ph props) = 1"
    and reg: "props_formatCharacters props = None \<and> \<not> ALPHANNUMERIC_RE (props_ph props)
           \<and> literals_plain (pattern m0) (props_ph props)
         \<or> stores_one_char (pattern m0) \<and> cell_stable (pattern m0) (props_ph props)
           \<and> literals_apart (pattern m0) (props_ph props)"
    and run: "run calls m0 = Inr m"
  from ph have ne: "props_ph props \<noteq> []" by auto
  with InputMask_new_pattern(4)[OF new] have php: "placeholderCharP (pattern m0) = props_ph props"
    by simp
  have all: "stores_one_char (pattern m0) \<and> cell_stable (pattern m0) (props_ph props)
           \<and> literals_apart (pattern m0) (props_ph props)"
  proof (cases "props_formatCharacters props = None \<and> \<not> ALPHANNUMERIC_RE (props_ph props)
           \<and> literals_plain (pattern m0) (props_ph props)")
    case True
    with InputMask_new_pattern(2)[OF new]
    have fc: "formatCharactersP (pattern m0) = DEFAULT_FORMAT_CHARACTERS"
      by (simp add: mergeFormatCharacters_def)
    from default_stores_one_char[OF fc] default_cell_stable[OF fc php] default_literals_apart[OF fc]
      True show ?thesis by blast
  next
    case False
    with reg show ?thesis by blast
  qed
  note pm = InputMask_new_inv(1)[OF new nr ph all[THEN conjunct1]]
  note inv = run_inv[OF pm InputMask_new_inv(2)[OF new nr ph all[THEN conjunct1]] run]
  from InputMask_new_facts(3)[OF new] all
  have "literals_apart (pattern m0) (placeholderChar m0)" "cell_stable (pattern m0) (placeholderChar m0)"
    by simp_all
  from setValue_getRawValue[OF pm inv this]
  show "valueBuf (setValue (getRawValue m) m) = valueBuf m" .
qed

text \<open>The theorem on the phone mask after the ten calls: its raw value is the ten
  digits, and setting it gives the same buffer.\<close>

theorem raw_value_roundtrip_witness:
  "InputMask_new (default_props ''(111) 111-1111'') = Inr phone_mask
   \<and> \<not> props_revealing (default_props ''(111) 111-1111'')
   \<and> length (props_ph (default_props ''(111) 111-1111'')) = 1
   \<and> props_formatCharacters (default_props ''(111) 111-1111'') = None
   \<and> \<not> ALPHANNUMERIC_RE (props_ph (default_props ''(111) 111-1111''))
   \<and> literals_plain (pattern phone_mask) (props_ph (default_props ''(111) 111-1111''))
   \<and> run phone_calls phone_mask = Inr phone_mask_run
   \<and> getRawValue phone_mask_run = ''4155552671''
   \<and> valueBuf (setValue (getRawValue phone_mask_run) phone_mask_run) = valueBuf phone_mask_run"
proof -
  let ?props = "default_props ''(111) 111-1111''"
  have "\<not> isl (InputMask_new ?props)" by code_simp
  then have new: "InputMask_new ?props = Inr phone_mask"
    by (cases "InputMask_new ?props") (simp_all add: phone_mask_def)
  have nr: "\<not> props_revealing ?props" and ph: "length (props_ph ?props) = 1"
    and fc: "props_formatCharacters ?props = None"
    by (simp_all add: default_props_def props_revealing_def props_ph_def
          DEFAULT_PLACEHOLDER_CHAR_def)
  have na: "\<not> ALPHANNUMERIC_RE (props_ph ?props)"
    and lp: "literals_plain (pattern phone_mask) (props_ph ?props)"
    and raw: "getRawValue phone_mask_run = ''4155552671''"
    by code_simp+
  have "\<not> isl (run phone_calls phone_mask)" by code_simp
  then have run: "run phone_calls phone_mask = Inr phone_mask_run"
    by (cases "run phone_calls phone_mask") (simp_all add: phone_mask_run_def)
  from raw_value_roundtrip[of ?props phone_mask phone_calls phone_mask_run] new nr ph fc na lp run
  have "valueBuf (setValue (getRawValue phone_mask_run) phone_mask_run) = valueBuf phone_mask_run"
    by blast
  with new nr ph fc na lp run raw show ?thesis by blast
qed

text \<open>On the mask \<open>151\<close> the buffer \<open>155\<close> is reached by typing \<open>1\<close> and \<open>5\<close>; its raw value
  is \<open>15\<close>, and setting it gives \<open>15_\<close>: the \<open>5\<close> is taken for the literal.\<close>

theorem raw_value_roundtrip_counterexample:
  "\<not> isl (InputMask_new (default_props ''151''))
   \<and> \<not> isl (run [Input ''1'', Input ''5''] mask_151)
   \<and> \<not> isRevealingMask (pattern mask_151_typed)
   \<and> valueBuf mask_151_typed = map Some (split_chars ''155'')
   \<and> getRawValue mask_151_typed = ''15''
   \<and> valueBuf (setValue (getRawValue mask_151_typed) mask_151_typed)
       = map Some (split_chars ''15_'')"
  by code_simp

end
